theory Spec2Isabelle
  imports Main "HOL-Library.Word" "HOL-Library.Monad_Syntax"
begin

section \<open>The timed cache of package timed_cache, over Go's container/list\<close>

text \<open>
  The cache keeps its entries in a \<^verbatim>\<open>container/list\<close> doubly linked list (Go's standard
  library, modelled here function by function from its source) and indexes them by
  key in a Go map from keys to list elements. The list elements are heap
  objects that the map and the list share, and the expiration sweep keeps using an
  element after it has removed it from the list; the model therefore has an explicit
  store. The store is split by field: \<open>nxt c a\<close>, \<open>prv c a\<close>, \<open>lst c a\<close> and
  \<open>Value c a\<close> are the fields \<^verbatim>\<open>next\<close>, \<^verbatim>\<open>prev\<close>, \<^verbatim>\<open>list\<close> and \<^verbatim>\<open>Value\<close> of the
  \<^verbatim>\<open>list.Element\<close> at address \<open>a\<close>. A pointer is an \<open>addr option\<close>, \<open>None\<close> being
  \<^verbatim>\<open>nil\<close>. Every function that can panic returns an \<open>option\<close>, \<open>None\<close> being the
  panic (nil dereference, failed type assertion, index out of range).
\<close>

subsection \<open>Data\<close>

type_synonym addr = nat
type_synonym int64 = "64 word"

text \<open>\<^verbatim>\<open>type entry struct { tm int64; key interface{}; value interface{} }\<close>\<close>

record ('k, 'v) entry =
  tm :: int64
  key :: 'k
  val :: 'v

text \<open>
  The \<^verbatim>\<open>Value interface{}\<close> of a list element: the nil interface (the zero value, which
  the sentinel keeps), or a \<^verbatim>\<open>*entry\<close>, itself nil (\<open>None\<close>) or pointing to an entry.
  Each entry is referenced by exactly one element, so it is stored in place.
\<close>

datatype ('k, 'v) iface = NilIface | EntryPtr "('k, 'v) entry option"

text \<open>
  \<^verbatim>\<open>type TimedCache struct { sync.Mutex; evictList *list.List; items map[interface{}]*list.Element;
  duration int64; onEvictCall EvictCallback }\<close>

  The record holds the store of list elements (\<open>nxt\<close>, \<open>prv\<close>, \<open>lst\<close>, \<open>Value\<close>, with
  \<open>nalloc\<close> the next address the allocator hands out), the \<^verbatim>\<open>len\<close> field of the one
  \<^verbatim>\<open>list.List\<close> the cache owns (its sentinel \<^verbatim>\<open>root\<close> is the element at address \<open>root\<close>),
  the map \<open>items\<close>, \<open>duration\<close> and the callback. Since the cache owns a single list,
  the \<^verbatim>\<open>list\<close> field of an element is that list (\<open>True\<close>) or nil (\<open>False\<close>).
  The callback is caller code: it is a transformer of the caller's world \<open>'w\<close>, which
  the record carries as \<open>world\<close>; \<open>None\<close> is the nil func. A callback is taken to
  return, and not to call the cache: the mutex is held for the whole of every public
  method and is not reentrant, so such a call would block for ever. Each method is
  therefore one atomic step of the model.
  The type \<open>'k\<close> is the type of the keys that are equal to themselves: on them Go's
  \<^verbatim>\<open>==\<close>, by which the map finds a key, is the equality of \<open>'k\<close>. Go panics on a map key
  that is not comparable; such keys are outside the model. A comparable key that is not
  equal to itself (a floating-point NaN) is outside \<open>'k\<close>; the section after this one
  has the cache with such keys. \<^verbatim>\<open>len\<close> is Go's \<^verbatim>\<open>int\<close>; a list cannot grow to where it
  would wrap, so it is an \<open>int\<close> here.
\<close>

record ('k, 'v, 'w) TimedCache =
  nxt :: "addr \<Rightarrow> addr option"
  prv :: "addr \<Rightarrow> addr option"
  lst :: "addr \<Rightarrow> bool"
  Value :: "addr \<Rightarrow> ('k, 'v) iface"
  nalloc :: addr
  len :: int
  items :: "'k \<Rightarrow> addr option"
  duration :: int64
  onEvictCall :: "('k \<Rightarrow> 'v \<Rightarrow> 'w \<Rightarrow> 'w) option"
  world :: 'w

definition root :: addr where
  "root = 0"

subsection \<open>container/list\<close>

text \<open>\<^verbatim>\<open>func (l *List) Init() *List { l.root.next = &l.root; l.root.prev = &l.root; l.len = 0; return l }\<close>\<close>

definition Init :: "('k, 'v, 'w) TimedCache \<Rightarrow> ('k, 'v, 'w) TimedCache" where
  "Init c = c\<lparr>nxt := (nxt c)(root := Some root),
              prv := (prv c)(root := Some root),
              len := 0\<rparr>"

text \<open>\<^verbatim>\<open>func (l *List) lazyInit() { if l.root.next == nil { l.Init() } }\<close>\<close>

definition lazyInit :: "('k, 'v, 'w) TimedCache \<Rightarrow> ('k, 'v, 'w) TimedCache" where
  "lazyInit c = (if nxt c root = None then Init c else c)"

text \<open>\<^verbatim>\<open>func (l *List) Len() int { return l.len }\<close>\<close>

definition Len_list :: "('k, 'v, 'w) TimedCache \<Rightarrow> int" where
  "Len_list c = len c"

text \<open>\<^verbatim>\<open>func (l *List) Front() *Element { if l.len == 0 { return nil }; return l.root.next }\<close>\<close>

definition Front :: "('k, 'v, 'w) TimedCache \<Rightarrow> addr option" where
  "Front c = (if len c = 0 then None else nxt c root)"

text \<open>\<^verbatim>\<open>func (l *List) Back() *Element { if l.len == 0 { return nil }; return l.root.prev }\<close>\<close>

definition Back :: "('k, 'v, 'w) TimedCache \<Rightarrow> addr option" where
  "Back c = (if len c = 0 then None else prv c root)"

text \<open>
  \<^verbatim>\<open>func (e *Element) Next() *Element { if p := e.next; e.list != nil && p != &e.list.root { return p }; return nil }\<close>
  and \<^verbatim>\<open>Prev\<close> likewise with \<^verbatim>\<open>e.prev\<close>.
\<close>

definition Next :: "('k, 'v, 'w) TimedCache \<Rightarrow> addr \<Rightarrow> addr option" where
  "Next c e = (if lst c e \<and> nxt c e \<noteq> Some root then nxt c e else None)"

definition Prev :: "('k, 'v, 'w) TimedCache \<Rightarrow> addr \<Rightarrow> addr option" where
  "Prev c e = (if lst c e \<and> prv c e \<noteq> Some root then prv c e else None)"

text \<open>
  \<^verbatim>\<open>func (l *List) insert(e, at *Element) *Element {
    e.prev = at; e.next = at.next; e.prev.next = e; e.next.prev = e; e.list = l; l.len++; return e }\<close>
\<close>

definition insert_elem ::
  "addr \<Rightarrow> addr \<Rightarrow> ('k, 'v, 'w) TimedCache \<Rightarrow> (addr \<times> ('k, 'v, 'w) TimedCache) option" where
  "insert_elem e at c0 = do {
     let c1 = c0\<lparr>prv := (prv c0)(e := Some at)\<rparr>;
     let c2 = c1\<lparr>nxt := (nxt c1)(e := nxt c1 at)\<rparr>;
     p \<leftarrow> prv c2 e;
     let c3 = c2\<lparr>nxt := (nxt c2)(p := Some e)\<rparr>;
     n \<leftarrow> nxt c3 e;
     let c4 = c3\<lparr>prv := (prv c3)(n := Some e)\<rparr>;
     let c5 = c4\<lparr>lst := (lst c4)(e := True)\<rparr>;
     Some (e, c5\<lparr>len := len c5 + 1\<rparr>)
   }"

text \<open>
  \<^verbatim>\<open>func (l *List) insertValue(v any, at *Element) *Element { return l.insert(&Element{Value: v}, at) }\<close>
  The composite literal allocates a fresh element with zero \<^verbatim>\<open>next\<close>, \<^verbatim>\<open>prev\<close>, \<^verbatim>\<open>list\<close>.
\<close>

definition insertValue ::
  "('k, 'v) iface \<Rightarrow> addr \<Rightarrow> ('k, 'v, 'w) TimedCache \<Rightarrow> (addr \<times> ('k, 'v, 'w) TimedCache) option" where
  "insertValue v at c =
     (let e = nalloc c in
      insert_elem e at
        (c\<lparr>nxt := (nxt c)(e := None), prv := (prv c)(e := None), lst := (lst c)(e := False),
           Value := (Value c)(e := v), nalloc := Suc e\<rparr>))"

text \<open>\<^verbatim>\<open>func (l *List) PushFront(v any) *Element { l.lazyInit(); return l.insertValue(v, &l.root) }\<close>\<close>

definition PushFront ::
  "('k, 'v) iface \<Rightarrow> ('k, 'v, 'w) TimedCache \<Rightarrow> (addr \<times> ('k, 'v, 'w) TimedCache) option" where
  "PushFront v c = insertValue v root (lazyInit c)"

text \<open>
  \<^verbatim>\<open>func (l *List) remove(e *Element) {
    e.prev.next = e.next; e.next.prev = e.prev; e.next = nil; e.prev = nil; e.list = nil; l.len-- }\<close>
\<close>

definition remove_elem :: "addr \<Rightarrow> ('k, 'v, 'w) TimedCache \<Rightarrow> ('k, 'v, 'w) TimedCache option" where
  "remove_elem e c0 = do {
     p \<leftarrow> prv c0 e;
     let c1 = c0\<lparr>nxt := (nxt c0)(p := nxt c0 e)\<rparr>;
     n \<leftarrow> nxt c1 e;
     let c2 = c1\<lparr>prv := (prv c1)(n := prv c1 e)\<rparr>;
     let c3 = c2\<lparr>nxt := (nxt c2)(e := None)\<rparr>;
     let c4 = c3\<lparr>prv := (prv c3)(e := None)\<rparr>;
     let c5 = c4\<lparr>lst := (lst c4)(e := False)\<rparr>;
     Some (c5\<lparr>len := len c5 - 1\<rparr>)
   }"

text \<open>
  \<^verbatim>\<open>func (l *List) move(e, at *Element) {
    if e == at { return }
    e.prev.next = e.next; e.next.prev = e.prev
    e.prev = at; e.next = at.next; e.prev.next = e; e.next.prev = e }\<close>
\<close>

definition move_elem :: "addr \<Rightarrow> addr \<Rightarrow> ('k, 'v, 'w) TimedCache \<Rightarrow> ('k, 'v, 'w) TimedCache option" where
  "move_elem e at c0 =
     (if e = at then Some c0
      else do {
        p \<leftarrow> prv c0 e;
        let c1 = c0\<lparr>nxt := (nxt c0)(p := nxt c0 e)\<rparr>;
        n \<leftarrow> nxt c1 e;
        let c2 = c1\<lparr>prv := (prv c1)(n := prv c1 e)\<rparr>;
        let c3 = c2\<lparr>prv := (prv c2)(e := Some at)\<rparr>;
        let c4 = c3\<lparr>nxt := (nxt c3)(e := nxt c3 at)\<rparr>;
        p' \<leftarrow> prv c4 e;
        let c5 = c4\<lparr>nxt := (nxt c4)(p' := Some e)\<rparr>;
        n' \<leftarrow> nxt c5 e;
        Some (c5\<lparr>prv := (prv c5)(n' := Some e)\<rparr>)
      })"

text \<open>
  \<^verbatim>\<open>func (l *List) Remove(e *Element) any { if e.list == l { l.remove(e) }; return e.Value }\<close>
\<close>

definition Remove_list ::
  "addr \<Rightarrow> ('k, 'v, 'w) TimedCache \<Rightarrow> (('k, 'v) iface \<times> ('k, 'v, 'w) TimedCache) option" where
  "Remove_list e c = do {
     c' \<leftarrow> (if lst c e then remove_elem e c else Some c);
     Some (Value c' e, c')
   }"

text \<open>
  \<^verbatim>\<open>func (l *List) MoveToFront(e *Element) {
    if e.list != l || l.root.next == e { return }
    l.move(e, &l.root) }\<close>
\<close>

definition MoveToFront :: "addr \<Rightarrow> ('k, 'v, 'w) TimedCache \<Rightarrow> ('k, 'v, 'w) TimedCache option" where
  "MoveToFront e c =
     (if \<not> lst c e \<or> nxt c root = Some e then Some c else move_elem e root c)"

subsection \<open>The cache\<close>

text \<open>
  \<^verbatim>\<open>func NewTimedCache(duration int64, onEvictCall EvictCallback) *TimedCache\<close>:
  \<^verbatim>\<open>list.New()\<close> is \<^verbatim>\<open>new(List).Init()\<close>, the map is empty. The sentinel is the only
  element allocated; \<open>w\<close> is the caller's world at that moment.
\<close>

definition NewTimedCache ::
  "int64 \<Rightarrow> ('k \<Rightarrow> 'v \<Rightarrow> 'w \<Rightarrow> 'w) option \<Rightarrow> 'w \<Rightarrow> ('k, 'v, 'w) TimedCache" where
  "NewTimedCache d cb w =
     Init \<lparr>nxt = (\<lambda>_. None), prv = (\<lambda>_. None), lst = (\<lambda>_. False), Value = (\<lambda>_. NilIface),
           nalloc = Suc root, len = 0, items = Map.empty, duration = d, onEvictCall = cb,
           world = w\<rparr>"

text \<open>
  \<^verbatim>\<open>e.Value.(*entry)\<close> followed by a field access: the type assertion panics on the nil
  interface, the field access on a nil pointer.
\<close>

definition entry_at :: "('k, 'v, 'w) TimedCache \<Rightarrow> addr \<Rightarrow> ('k, 'v) entry option" where
  "entry_at c e = (case Value c e of NilIface \<Rightarrow> None | EntryPtr p \<Rightarrow> p)"

text \<open>
  \<^verbatim>\<open>func (c *TimedCache) removeElement(e *list.Element) {
    c.evictList.Remove(e)
    kv := e.Value.(*entry)
    delete(c.items, kv.key)
    if c.onEvictCall != nil { c.onEvictCall(kv.key, kv.value) } }\<close>
  The key is equal to itself, so \<^verbatim>\<open>delete\<close> removes its entry from the map.
\<close>

definition removeElement :: "addr \<Rightarrow> ('k, 'v, 'w) TimedCache \<Rightarrow> ('k, 'v, 'w) TimedCache option" where
  "removeElement e c = do {
     (_, c1) \<leftarrow> Remove_list e c;
     kv \<leftarrow> entry_at c1 e;
     let c2 = c1\<lparr>items := (items c1)(key kv := None)\<rparr>;
     (case onEvictCall c2 of
        None \<Rightarrow> Some c2
      | Some f \<Rightarrow> Some (c2\<lparr>world := f (key kv) (val kv) (world c2)\<rparr>))
   }"

text \<open>The test \<^verbatim>\<open>now-ent.tm > c.duration\<close> on int64: the subtraction wraps, the comparison is signed.\<close>

definition expired :: "int64 \<Rightarrow> int64 \<Rightarrow> ('k, 'v) entry \<Rightarrow> bool" where
  "expired now d ent = (sint d < sint (now - tm ent))"

text \<open>
  \<^verbatim>\<open>Remove\<close> clears the \<^verbatim>\<open>list\<close> field of the element it removes (and leaves alone an
  element whose field is already nil), so after \<^verbatim>\<open>removeElement(e)\<close> the call \<^verbatim>\<open>e.Prev()\<close>
  returns nil. This is what ends the loop below.
\<close>

lemma removeElement_Prev: "removeElement e c = Some c' \<Longrightarrow> Prev c' e = None"
  by (auto simp: removeElement_def Remove_list_def remove_elem_def Prev_def Let_def
      split: if_splits option.splits Option.bind_splits prod.splits)

text \<open>
  \<^verbatim>\<open>func (c *TimedCache) purgeExpired() {
    now := time.Now().Unix()
    for e := c.evictList.Back(); e != nil; e = e.Prev() {
      ent := e.Value.(*entry)
      if now-ent.tm > c.duration { c.removeElement(e) } else { return } } }\<close>
  The loop variable keeps pointing at the element the body has just removed, and the
  post statement \<^verbatim>\<open>e = e.Prev()\<close> is evaluated on that element in the store after the
  removal. \<open>now\<close> is the clock reading.
\<close>

function purgeExpired_loop ::
  "int64 \<Rightarrow> addr option \<Rightarrow> ('k, 'v, 'w) TimedCache \<Rightarrow> ('k, 'v, 'w) TimedCache option" where
  "purgeExpired_loop now None c = Some c"
| "purgeExpired_loop now (Some e) c = do {
     ent \<leftarrow> entry_at c e;
     if expired now (duration c) ent then do {
       c' \<leftarrow> removeElement e c;
       purgeExpired_loop now (Prev c' e) c'
     } else Some c
   }"
  by pat_completeness auto
termination
  by (relation "measure (\<lambda>(now, e, c). case e of None \<Rightarrow> 0 | Some _ \<Rightarrow> Suc 0)")
    (auto simp: removeElement_Prev)

definition purgeExpired :: "int64 \<Rightarrow> ('k, 'v, 'w) TimedCache \<Rightarrow> ('k, 'v, 'w) TimedCache option" where
  "purgeExpired now c = purgeExpired_loop now (Back c) c"

text \<open>\<^verbatim>\<open>func (c *TimedCache) PurgeExpired() { c.Lock(); defer c.Unlock(); c.purgeExpired() }\<close>\<close>

definition PurgeExpired :: "int64 \<Rightarrow> ('k, 'v, 'w) TimedCache \<Rightarrow> ('k, 'v, 'w) TimedCache option" where
  "PurgeExpired now c = purgeExpired now c"

text \<open>
  \<^verbatim>\<open>func (c *TimedCache) Purge() {
    c.Lock(); defer c.Unlock()
    for k, v := range c.items {
      if c.onEvictCall != nil { c.onEvictCall(k, v.Value.(*entry).value) }
      delete(c.items, k) }
    c.evictList.Init() }\<close>
  Go leaves the order in which \<^verbatim>\<open>range\<close> visits a map to the runtime: the model takes it
  as the list \<open>ks\<close> of keys, in visiting order. A key that is not in the map when its
  turn comes is not visited. An execution of \<^verbatim>\<open>Purge\<close> is \<open>Purge ks c\<close> for a \<open>ks\<close> that
  lists every key of the map once (\<open>range_order\<close>).
\<close>

fun Purge_loop :: "'k list \<Rightarrow> ('k, 'v, 'w) TimedCache \<Rightarrow> ('k, 'v, 'w) TimedCache option" where
  "Purge_loop [] c = Some c"
| "Purge_loop (k # ks) c =
     (case items c k of
        None \<Rightarrow> Purge_loop ks c
      | Some v \<Rightarrow> do {
          c1 \<leftarrow> (case onEvictCall c of
                   None \<Rightarrow> Some c
                 | Some f \<Rightarrow> do {
                     ent \<leftarrow> entry_at c v;
                     Some (c\<lparr>world := f k (val ent) (world c)\<rparr>)
                   });
          Purge_loop ks (c1\<lparr>items := (items c1)(k := None)\<rparr>)
        })"

definition Purge :: "'k list \<Rightarrow> ('k, 'v, 'w) TimedCache \<Rightarrow> ('k, 'v, 'w) TimedCache option" where
  "Purge ks c = do { c1 \<leftarrow> Purge_loop ks c; Some (Init c1) }"

definition range_order :: "'k list \<Rightarrow> ('k, 'v, 'w) TimedCache \<Rightarrow> bool" where
  "range_order ks c = (distinct ks \<and> set ks = dom (items c))"

text \<open>
  \<^verbatim>\<open>func (c *TimedCache) Add(key, value interface{}) bool {
    c.Lock(); defer c.Unlock()
    c.purgeExpired()
    if _, ok := c.items[key]; ok { return false }
    ent := &entry{time.Now().Unix(), key, value}
    entry := c.evictList.PushFront(ent)
    c.items[key] = entry
    return true }\<close>
  The method reads the clock twice: \<open>now\<close> in the sweep, \<open>now'\<close> for the new entry.
\<close>

definition Add ::
  "int64 \<Rightarrow> int64 \<Rightarrow> 'k \<Rightarrow> 'v \<Rightarrow> ('k, 'v, 'w) TimedCache \<Rightarrow> (bool \<times> ('k, 'v, 'w) TimedCache) option" where
  "Add now now' k v c0 = do {
     c \<leftarrow> purgeExpired now c0;
     (case items c k of
        Some _ \<Rightarrow> Some (False, c)
      | None \<Rightarrow> do {
          (e, c1) \<leftarrow> PushFront (EntryPtr (Some \<lparr>tm = now', key = k, val = v\<rparr>)) c;
          Some (True, c1\<lparr>items := (items c1)(k \<mapsto> e)\<rparr>)
        })
   }"

text \<open>
  \<^verbatim>\<open>func (c *TimedCache) Update(key, value interface{}) bool {
    c.Lock(); defer c.Unlock()
    c.purgeExpired()
    if ent, ok := c.items[key]; ok {
      c.evictList.MoveToFront(ent)
      ent.Value.(*entry).value = value
      ent.Value.(*entry).tm = time.Now().Unix()
      return true }
    return false }\<close>
\<close>

definition Update ::
  "int64 \<Rightarrow> int64 \<Rightarrow> 'k \<Rightarrow> 'v \<Rightarrow> ('k, 'v, 'w) TimedCache \<Rightarrow> (bool \<times> ('k, 'v, 'w) TimedCache) option" where
  "Update now now' k v c0 = do {
     c \<leftarrow> purgeExpired now c0;
     (case items c k of
        Some e \<Rightarrow> do {
          c1 \<leftarrow> MoveToFront e c;
          ent \<leftarrow> entry_at c1 e;
          let c2 = c1\<lparr>Value := (Value c1)(e := EntryPtr (Some (ent\<lparr>val := v\<rparr>)))\<rparr>;
          ent' \<leftarrow> entry_at c2 e;
          Some (True, c2\<lparr>Value := (Value c2)(e := EntryPtr (Some (ent'\<lparr>tm := now'\<rparr>)))\<rparr>)
        }
      | None \<Rightarrow> Some (False, c))
   }"

text \<open>
  \<^verbatim>\<open>func (c *TimedCache) Get(key interface{}) (interface{}, bool) {
    c.Lock(); defer c.Unlock()
    c.purgeExpired()
    if ent, ok := c.items[key]; ok {
      c.evictList.MoveToFront(ent)
      if ent.Value.(*entry) == nil { return nil, false }
      ent.Value.(*entry).tm = time.Now().Unix()
      return ent.Value.(*entry).value, true }
    return nil, false }\<close>
  The returned \<^verbatim>\<open>interface{}\<close> is \<open>None\<close> for nil.
\<close>

definition Get ::
  "int64 \<Rightarrow> int64 \<Rightarrow> 'k \<Rightarrow> ('k, 'v, 'w) TimedCache \<Rightarrow> (('v option \<times> bool) \<times> ('k, 'v, 'w) TimedCache) option" where
  "Get now now' k c0 = do {
     c \<leftarrow> purgeExpired now c0;
     (case items c k of
        Some e \<Rightarrow> do {
          c1 \<leftarrow> MoveToFront e c;
          (case Value c1 e of
             NilIface \<Rightarrow> None
           | EntryPtr None \<Rightarrow> Some ((None, False), c1)
           | EntryPtr (Some ent) \<Rightarrow> do {
               let c2 = c1\<lparr>Value := (Value c1)(e := EntryPtr (Some (ent\<lparr>tm := now'\<rparr>)))\<rparr>;
               ent' \<leftarrow> entry_at c2 e;
               Some ((Some (val ent'), True), c2)
             })
        }
      | None \<Rightarrow> Some ((None, False), c))
   }"

text \<open>
  \<^verbatim>\<open>func (c *TimedCache) Contains(key interface{}) bool {
    c.Lock(); defer c.Unlock()
    c.purgeExpired()
    _, ok := c.items[key]
    return ok }\<close>
\<close>

definition Contains ::
  "int64 \<Rightarrow> 'k \<Rightarrow> ('k, 'v, 'w) TimedCache \<Rightarrow> (bool \<times> ('k, 'v, 'w) TimedCache) option" where
  "Contains now k c0 = do {
     c \<leftarrow> purgeExpired now c0;
     Some (items c k \<noteq> None, c)
   }"

text \<open>
  \<^verbatim>\<open>func (c *TimedCache) Peek(key interface{}) (interface{}, bool) {
    c.Lock(); defer c.Unlock()
    c.purgeExpired()
    if ent, ok := c.items[key]; ok { return ent.Value.(*entry).value, true }
    return nil, false }\<close>
\<close>

definition Peek ::
  "int64 \<Rightarrow> 'k \<Rightarrow> ('k, 'v, 'w) TimedCache \<Rightarrow> (('v option \<times> bool) \<times> ('k, 'v, 'w) TimedCache) option" where
  "Peek now k c0 = do {
     c \<leftarrow> purgeExpired now c0;
     (case items c k of
        Some e \<Rightarrow> do { ent \<leftarrow> entry_at c e; Some ((Some (val ent), True), c) }
      | None \<Rightarrow> Some ((None, False), c))
   }"

text \<open>
  \<^verbatim>\<open>func (c *TimedCache) Remove(key interface{}) bool {
    c.Lock(); defer c.Unlock()
    c.purgeExpired()
    if ent, ok := c.items[key]; ok { c.removeElement(ent); return true }
    return false }\<close>
\<close>

definition Remove ::
  "int64 \<Rightarrow> 'k \<Rightarrow> ('k, 'v, 'w) TimedCache \<Rightarrow> (bool \<times> ('k, 'v, 'w) TimedCache) option" where
  "Remove now k c0 = do {
     c \<leftarrow> purgeExpired now c0;
     (case items c k of
        Some e \<Rightarrow> do { c1 \<leftarrow> removeElement e c; Some (True, c1) }
      | None \<Rightarrow> Some (False, c))
   }"

text \<open>
  \<^verbatim>\<open>func (c *TimedCache) Keys() []interface{} {
    c.Lock(); defer c.Unlock()
    c.purgeExpired()
    keys := make([]interface{}, len(c.items))
    i := 0
    for ent := c.evictList.Back(); ent != nil; ent = ent.Prev() {
      keys[i] = ent.Value.(*entry).key
      i++ }
    return keys }\<close>
  The slice starts as \<^verbatim>\<open>len(c.items)\<close> nil interfaces (\<open>None\<close>); an assignment past its
  end panics, which bounds the loop.
\<close>

function Keys_loop ::
  "('k, 'v, 'w) TimedCache \<Rightarrow> addr option \<Rightarrow> nat \<Rightarrow> 'k option list \<Rightarrow> 'k option list option" where
  "Keys_loop c None i keys = Some keys"
| "Keys_loop c (Some e) i keys = do {
     ent \<leftarrow> entry_at c e;
     if i < length keys then Keys_loop c (Prev c e) (Suc i) (keys[i := Some (key ent)])
     else None
   }"
  by pat_completeness auto
termination
  by (relation "measure (\<lambda>(c, e, i, keys). length keys - i)") auto

definition Keys ::
  "int64 \<Rightarrow> ('k, 'v, 'w) TimedCache \<Rightarrow> ('k option list \<times> ('k, 'v, 'w) TimedCache) option" where
  "Keys now c0 = do {
     c \<leftarrow> purgeExpired now c0;
     keys \<leftarrow> Keys_loop c (Back c) 0 (replicate (card (dom (items c))) None);
     Some (keys, c)
   }"

text \<open>
  \<^verbatim>\<open>func (c *TimedCache) Len() int {
    c.Lock(); defer c.Unlock()
    c.purgeExpired()
    return c.evictList.Len() }\<close>
\<close>

definition Len ::
  "int64 \<Rightarrow> ('k, 'v, 'w) TimedCache \<Rightarrow> (int \<times> ('k, 'v, 'w) TimedCache) option" where
  "Len now c0 = do {
     c \<leftarrow> purgeExpired now c0;
     Some (Len_list c, c)
   }"

subsection \<open>Reading the recency list\<close>

text \<open>
  \<^verbatim>\<open>func (c *TimedCache) Print() {
    for e := c.evictList.Front(); e != nil; e = e.Next() { ent := e.Value.(*entry); fmt.Printf(...) } }\<close>
  \<open>elements c\<close> is the sequence of elements this traversal visits, front (newest)
  first, and \<open>entries c\<close> their entries; it is the model's reading of the recency list.
  The traversal is cut after \<^verbatim>\<open>len\<close> steps, which on a list in good order is where it
  ends by itself.
\<close>

fun walk :: "('k, 'v, 'w) TimedCache \<Rightarrow> nat \<Rightarrow> addr option \<Rightarrow> addr list" where
  "walk c 0 e = []"
| "walk c (Suc n) None = []"
| "walk c (Suc n) (Some a) = a # walk c n (Next c a)"

definition elements :: "('k, 'v, 'w) TimedCache \<Rightarrow> addr list" where
  "elements c = walk c (nat (len c)) (Front c)"

definition entries :: "('k, 'v, 'w) TimedCache \<Rightarrow> ('k, 'v) entry list" where
  "entries c = List.map_filter (entry_at c) (elements c)"

subsection \<open>Executions\<close>

text \<open>
  A call of a public method with the clock readings it makes (for \<^verbatim>\<open>Purge\<close>, with the
  order in which \<^verbatim>\<open>range\<close> visits the map), and what it returns. \<open>call\<close> is \<open>None\<close> when
  the method panics, and for a \<^verbatim>\<open>Purge\<close> whose order is not one in which \<^verbatim>\<open>range\<close> can
  visit the map, which is no execution of the program.
\<close>

datatype ('k, 'v) method_call =
    Add_call int64 int64 'k 'v
  | Update_call int64 int64 'k 'v
  | Get_call int64 int64 'k
  | Contains_call int64 'k
  | Peek_call int64 'k
  | Remove_call int64 'k
  | Keys_call int64
  | Len_call int64
  | Purge_call "'k list"
  | PurgeExpired_call int64

datatype ('k, 'v) ret =
    Bool_ret bool
  | Val_ret "'v option" bool
  | Keys_ret "'k option list"
  | Len_ret int
  | No_ret

fun call ::
  "('k, 'v) method_call \<Rightarrow> ('k, 'v, 'w) TimedCache \<Rightarrow> (('k, 'v) ret \<times> ('k, 'v, 'w) TimedCache) option" where
  "call (Add_call now now' k v) c = map_option (\<lambda>(r, c'). (Bool_ret r, c')) (Add now now' k v c)"
| "call (Update_call now now' k v) c = map_option (\<lambda>(r, c'). (Bool_ret r, c')) (Update now now' k v c)"
| "call (Get_call now now' k) c = map_option (\<lambda>((v, ok), c'). (Val_ret v ok, c')) (Get now now' k c)"
| "call (Contains_call now k) c = map_option (\<lambda>(r, c'). (Bool_ret r, c')) (Contains now k c)"
| "call (Peek_call now k) c = map_option (\<lambda>((v, ok), c'). (Val_ret v ok, c')) (Peek now k c)"
| "call (Remove_call now k) c = map_option (\<lambda>(r, c'). (Bool_ret r, c')) (Remove now k c)"
| "call (Keys_call now) c = map_option (\<lambda>(r, c'). (Keys_ret r, c')) (Keys now c)"
| "call (Len_call now) c = map_option (\<lambda>(r, c'). (Len_ret r, c')) (Len now c)"
| "call (Purge_call ks) c =
     (if range_order ks c then map_option (\<lambda>c'. (No_ret, c')) (Purge ks c) else None)"
| "call (PurgeExpired_call now) c = map_option (\<lambda>c'. (No_ret, c')) (PurgeExpired now c)"

text \<open>A sequence of calls, one after the other, with the values they returned.\<close>

fun run ::
  "('k, 'v) method_call list \<Rightarrow> ('k, 'v, 'w) TimedCache \<Rightarrow> (('k, 'v) ret list \<times> ('k, 'v, 'w) TimedCache) option" where
  "run [] c = Some ([], c)"
| "run (x # xs) c = do {
     (r, c1) \<leftarrow> call x c;
     (rs, c2) \<leftarrow> run xs c1;
     Some (r # rs, c2)
   }"

text \<open>What a caller can tell after a sequence of calls: the returned values, the recency
  list (front first), the keys of the map, and the callback's effect on the world.\<close>

definition rets_after :: "('k, 'v) method_call list \<Rightarrow> ('k, 'v, 'w) TimedCache \<Rightarrow> ('k, 'v) ret list option" where
  "rets_after xs c = map_option fst (run xs c)"

definition entries_after :: "('k, 'v) method_call list \<Rightarrow> ('k, 'v, 'w) TimedCache \<Rightarrow> ('k, 'v) entry list option" where
  "entries_after xs c = map_option (\<lambda>(rs, c'). entries c') (run xs c)"

definition items_after :: "('k, 'v) method_call list \<Rightarrow> ('k, 'v, 'w) TimedCache \<Rightarrow> 'k set option" where
  "items_after xs c = map_option (\<lambda>(rs, c'). dom (items c')) (run xs c)"

definition world_after :: "('k, 'v) method_call list \<Rightarrow> ('k, 'v, 'w) TimedCache \<Rightarrow> 'w option" where
  "world_after xs c = map_option (\<lambda>(rs, c'). world c') (run xs c)"

text \<open>The states the program can be in: those a sequence of calls reaches from a new cache.\<close>

inductive reachable :: "('k, 'v, 'w) TimedCache \<Rightarrow> bool" where
  new: "reachable (NewTimedCache d cb w)"
| step: "reachable c \<Longrightarrow> call x c = Some (r, c') \<Longrightarrow> reachable c'"

text \<open>A callback that records its arguments: the world is the list of evictions so far.\<close>

definition record_evictions :: "('k \<Rightarrow> 'v \<Rightarrow> ('k \<times> 'v) list \<Rightarrow> ('k \<times> 'v) list) option" where
  "record_evictions = Some (\<lambda>k v w. w @ [(k, v)])"

section \<open>The cache with keys that are not equal to themselves\<close>

text \<open>
  A key is an \<^verbatim>\<open>interface{}\<close>, and Go's map finds a key by \<^verbatim>\<open>==\<close>. Some comparable values
  are not equal to themselves: a floating-point NaN, and every struct, array or
  interface value that holds one. The map accepts such a key, and under it
  \<^verbatim>\<open>m[k] = e\<close> adds an entry each time it runs, \<^verbatim>\<open>m[k]\<close> finds none, \<^verbatim>\<open>delete(m, k)\<close>
  removes none, and \<^verbatim>\<open>range\<close> and \<^verbatim>\<open>len\<close> see every entry. The type \<open>'k\<close> of the section
  above is the type of the keys that are equal to themselves, for which \<^verbatim>\<open>==\<close> is the
  equality of \<open>'k\<close>. This section embeds the methods once more, for every key the map
  accepts: \<open>Key k\<close> is a key equal to itself, and \<open>NaN\<close> a key that is not.
\<close>

datatype 'k gokey = Key 'k | NaN

text \<open>
  The cache with its map in two parts. The entries under the keys \<open>Key k\<close> are those of
  \<open>items (cache g)\<close>, which no method assigns at \<open>NaN\<close>; \<open>nan_items g\<close> are the elements
  of the entries under \<open>NaN\<close>, in the order of their assignment. The list and the other
  fields are those of \<open>cache g\<close>, and \<^verbatim>\<open>container/list\<close> is as above.
\<close>

record ('k, 'v, 'w) TimedCache_any =
  cache :: "('k gokey, 'v, 'w) TimedCache"
  nan_items :: "addr list"

text \<open>\<^verbatim>\<open>c.items[k]\<close>, \<^verbatim>\<open>c.items[k] = e\<close>, \<^verbatim>\<open>delete(c.items, k)\<close> and \<^verbatim>\<open>len(c.items)\<close>.\<close>

definition items_index :: "('k, 'v, 'w) TimedCache_any \<Rightarrow> 'k gokey \<Rightarrow> addr option" where
  "items_index g k = (case k of Key _ \<Rightarrow> items (cache g) k | NaN \<Rightarrow> None)"

definition items_assign ::
  "'k gokey \<Rightarrow> addr \<Rightarrow> ('k, 'v, 'w) TimedCache_any \<Rightarrow> ('k, 'v, 'w) TimedCache_any" where
  "items_assign k e g =
     (case k of
        Key _ \<Rightarrow> g\<lparr>cache := (cache g)\<lparr>items := (items (cache g))(k \<mapsto> e)\<rparr>\<rparr>
      | NaN \<Rightarrow> g\<lparr>nan_items := nan_items g @ [e]\<rparr>)"

definition items_delete ::
  "'k gokey \<Rightarrow> ('k, 'v, 'w) TimedCache_any \<Rightarrow> ('k, 'v, 'w) TimedCache_any" where
  "items_delete k g =
     (case k of
        Key _ \<Rightarrow> g\<lparr>cache := (cache g)\<lparr>items := (items (cache g))(k := None)\<rparr>\<rparr>
      | NaN \<Rightarrow> g)"

definition items_len :: "('k, 'v, 'w) TimedCache_any \<Rightarrow> nat" where
  "items_len g = card (dom (items (cache g)) - {NaN}) + length (nan_items g)"

text \<open>The keys of the map: those of its entries.\<close>

definition items_keys :: "('k, 'v, 'w) TimedCache_any \<Rightarrow> 'k gokey set" where
  "items_keys g = (dom (items (cache g)) - {NaN}) \<union> (if nan_items g = [] then {} else {NaN})"

text \<open>\<^verbatim>\<open>NewTimedCache\<close>: the map is empty.\<close>

definition NewTimedCache_any ::
  "int64 \<Rightarrow> ('k gokey \<Rightarrow> 'v \<Rightarrow> 'w \<Rightarrow> 'w) option \<Rightarrow> 'w \<Rightarrow> ('k, 'v, 'w) TimedCache_any" where
  "NewTimedCache_any d cb w = \<lparr>cache = NewTimedCache d cb w, nan_items = []\<rparr>"

text \<open>
  \<^verbatim>\<open>func (c *TimedCache) removeElement(e *list.Element) {
    c.evictList.Remove(e)
    kv := e.Value.(*entry)
    delete(c.items, kv.key)
    if c.onEvictCall != nil { c.onEvictCall(kv.key, kv.value) } }\<close>
\<close>

definition removeElement_any ::
  "addr \<Rightarrow> ('k, 'v, 'w) TimedCache_any \<Rightarrow> ('k, 'v, 'w) TimedCache_any option" where
  "removeElement_any e g = do {
     (_, c1) \<leftarrow> Remove_list e (cache g);
     kv \<leftarrow> entry_at c1 e;
     let g2 = items_delete (key kv) (g\<lparr>cache := c1\<rparr>);
     (case onEvictCall (cache g2) of
        None \<Rightarrow> Some g2
      | Some f \<Rightarrow> Some (g2\<lparr>cache := (cache g2)\<lparr>world := f (key kv) (val kv) (world (cache g2))\<rparr>\<rparr>))
   }"

lemma removeElement_any_Prev: "removeElement_any e g = Some g' \<Longrightarrow> Prev (cache g') e = None"
  by (auto simp: removeElement_any_def items_delete_def Remove_list_def remove_elem_def Prev_def Let_def
      split: if_splits option.splits Option.bind_splits prod.splits gokey.splits)

text \<open>
  \<^verbatim>\<open>func (c *TimedCache) purgeExpired() {
    now := time.Now().Unix()
    for e := c.evictList.Back(); e != nil; e = e.Prev() {
      ent := e.Value.(*entry)
      if now-ent.tm > c.duration { c.removeElement(e) } else { return } } }\<close>
\<close>

function purgeExpired_loop_any ::
  "int64 \<Rightarrow> addr option \<Rightarrow> ('k, 'v, 'w) TimedCache_any \<Rightarrow> ('k, 'v, 'w) TimedCache_any option" where
  "purgeExpired_loop_any now None g = Some g"
| "purgeExpired_loop_any now (Some e) g = do {
     ent \<leftarrow> entry_at (cache g) e;
     if expired now (duration (cache g)) ent then do {
       g' \<leftarrow> removeElement_any e g;
       purgeExpired_loop_any now (Prev (cache g') e) g'
     } else Some g
   }"
  by pat_completeness auto
termination
  by (relation "measure (\<lambda>(now, e, g). case e of None \<Rightarrow> 0 | Some _ \<Rightarrow> Suc 0)")
    (auto simp: removeElement_any_Prev)

definition purgeExpired_any ::
  "int64 \<Rightarrow> ('k, 'v, 'w) TimedCache_any \<Rightarrow> ('k, 'v, 'w) TimedCache_any option" where
  "purgeExpired_any now g = purgeExpired_loop_any now (Back (cache g)) g"

text \<open>\<^verbatim>\<open>func (c *TimedCache) PurgeExpired() { c.Lock(); defer c.Unlock(); c.purgeExpired() }\<close>\<close>

definition PurgeExpired_any ::
  "int64 \<Rightarrow> ('k, 'v, 'w) TimedCache_any \<Rightarrow> ('k, 'v, 'w) TimedCache_any option" where
  "PurgeExpired_any now g = purgeExpired_any now g"

text \<open>
  \<^verbatim>\<open>func (c *TimedCache) Purge() {
    c.Lock(); defer c.Unlock()
    for k, v := range c.items {
      if c.onEvictCall != nil { c.onEvictCall(k, v.Value.(*entry).value) }
      delete(c.items, k) }
    c.evictList.Init() }\<close>
  \<^verbatim>\<open>range\<close> visits the entries of the map in an order the runtime chooses, given here
  as the list of the entries visited: \<open>Keyed k\<close> is the entry under \<open>Key k\<close>, and
  \<open>Unkeyed i\<close> the entry of \<open>nan_items\<close> at index \<open>i\<close>. An execution of \<^verbatim>\<open>Purge\<close> is
  \<open>Purge_any vs g\<close> for a \<open>vs\<close> that lists every entry of the map once
  (\<open>range_order_any\<close>).
\<close>

datatype 'k visit = Keyed 'k | Unkeyed nat

fun Purge_loop_any ::
  "'k visit list \<Rightarrow> ('k, 'v, 'w) TimedCache_any \<Rightarrow> ('k, 'v, 'w) TimedCache_any option" where
  "Purge_loop_any [] g = Some g"
| "Purge_loop_any (Keyed k # vs) g =
     (case items (cache g) (Key k) of
        None \<Rightarrow> Purge_loop_any vs g
      | Some v \<Rightarrow> do {
          g1 \<leftarrow> (case onEvictCall (cache g) of
                   None \<Rightarrow> Some g
                 | Some f \<Rightarrow> do {
                     ent \<leftarrow> entry_at (cache g) v;
                     Some (g\<lparr>cache := (cache g)\<lparr>world := f (Key k) (val ent) (world (cache g))\<rparr>\<rparr>)
                   });
          Purge_loop_any vs (items_delete (Key k) g1)
        })"
| "Purge_loop_any (Unkeyed i # vs) g =
     (if i < length (nan_items g) then do {
        g1 \<leftarrow> (case onEvictCall (cache g) of
                 None \<Rightarrow> Some g
               | Some f \<Rightarrow> do {
                   ent \<leftarrow> entry_at (cache g) (nan_items g ! i);
                   Some (g\<lparr>cache := (cache g)\<lparr>world := f NaN (val ent) (world (cache g))\<rparr>\<rparr>)
                 });
        Purge_loop_any vs (items_delete NaN g1)
      } else Purge_loop_any vs g)"

definition Purge_any ::
  "'k visit list \<Rightarrow> ('k, 'v, 'w) TimedCache_any \<Rightarrow> ('k, 'v, 'w) TimedCache_any option" where
  "Purge_any vs g = do { g1 \<leftarrow> Purge_loop_any vs g; Some (g1\<lparr>cache := Init (cache g1)\<rparr>) }"

definition range_order_any :: "'k visit list \<Rightarrow> ('k, 'v, 'w) TimedCache_any \<Rightarrow> bool" where
  "range_order_any vs g =
     (distinct vs \<and>
      set vs = Keyed ` {k. items (cache g) (Key k) \<noteq> None} \<union> Unkeyed ` {..<length (nan_items g)})"

text \<open>
  \<^verbatim>\<open>func (c *TimedCache) Add(key, value interface{}) bool {
    c.Lock(); defer c.Unlock()
    c.purgeExpired()
    if _, ok := c.items[key]; ok { return false }
    ent := &entry{time.Now().Unix(), key, value}
    entry := c.evictList.PushFront(ent)
    c.items[key] = entry
    return true }\<close>
\<close>

definition Add_any ::
  "int64 \<Rightarrow> int64 \<Rightarrow> 'k gokey \<Rightarrow> 'v \<Rightarrow> ('k, 'v, 'w) TimedCache_any \<Rightarrow>
     (bool \<times> ('k, 'v, 'w) TimedCache_any) option" where
  "Add_any now now' k v g0 = do {
     g \<leftarrow> purgeExpired_any now g0;
     (case items_index g k of
        Some _ \<Rightarrow> Some (False, g)
      | None \<Rightarrow> do {
          (e, c1) \<leftarrow> PushFront (EntryPtr (Some \<lparr>tm = now', key = k, val = v\<rparr>)) (cache g);
          Some (True, items_assign k e (g\<lparr>cache := c1\<rparr>))
        })
   }"

text \<open>
  \<^verbatim>\<open>func (c *TimedCache) Update(key, value interface{}) bool {
    c.Lock(); defer c.Unlock()
    c.purgeExpired()
    if ent, ok := c.items[key]; ok {
      c.evictList.MoveToFront(ent)
      ent.Value.(*entry).value = value
      ent.Value.(*entry).tm = time.Now().Unix()
      return true }
    return false }\<close>
\<close>

definition Update_any ::
  "int64 \<Rightarrow> int64 \<Rightarrow> 'k gokey \<Rightarrow> 'v \<Rightarrow> ('k, 'v, 'w) TimedCache_any \<Rightarrow>
     (bool \<times> ('k, 'v, 'w) TimedCache_any) option" where
  "Update_any now now' k v g0 = do {
     g \<leftarrow> purgeExpired_any now g0;
     (case items_index g k of
        Some e \<Rightarrow> do {
          c1 \<leftarrow> MoveToFront e (cache g);
          ent \<leftarrow> entry_at c1 e;
          let c2 = c1\<lparr>Value := (Value c1)(e := EntryPtr (Some (ent\<lparr>val := v\<rparr>)))\<rparr>;
          ent' \<leftarrow> entry_at c2 e;
          Some (True, g\<lparr>cache := c2\<lparr>Value := (Value c2)(e := EntryPtr (Some (ent'\<lparr>tm := now'\<rparr>)))\<rparr>\<rparr>)
        }
      | None \<Rightarrow> Some (False, g))
   }"

text \<open>
  \<^verbatim>\<open>func (c *TimedCache) Get(key interface{}) (interface{}, bool) {
    c.Lock(); defer c.Unlock()
    c.purgeExpired()
    if ent, ok := c.items[key]; ok {
      c.evictList.MoveToFront(ent)
      if ent.Value.(*entry) == nil { return nil, false }
      ent.Value.(*entry).tm = time.Now().Unix()
      return ent.Value.(*entry).value, true }
    return nil, false }\<close>
\<close>

definition Get_any ::
  "int64 \<Rightarrow> int64 \<Rightarrow> 'k gokey \<Rightarrow> ('k, 'v, 'w) TimedCache_any \<Rightarrow>
     (('v option \<times> bool) \<times> ('k, 'v, 'w) TimedCache_any) option" where
  "Get_any now now' k g0 = do {
     g \<leftarrow> purgeExpired_any now g0;
     (case items_index g k of
        Some e \<Rightarrow> do {
          c1 \<leftarrow> MoveToFront e (cache g);
          (case Value c1 e of
             NilIface \<Rightarrow> None
           | EntryPtr None \<Rightarrow> Some ((None, False), g\<lparr>cache := c1\<rparr>)
           | EntryPtr (Some ent) \<Rightarrow> do {
               let c2 = c1\<lparr>Value := (Value c1)(e := EntryPtr (Some (ent\<lparr>tm := now'\<rparr>)))\<rparr>;
               ent' \<leftarrow> entry_at c2 e;
               Some ((Some (val ent'), True), g\<lparr>cache := c2\<rparr>)
             })
        }
      | None \<Rightarrow> Some ((None, False), g))
   }"

text \<open>
  \<^verbatim>\<open>func (c *TimedCache) Contains(key interface{}) bool {
    c.Lock(); defer c.Unlock()
    c.purgeExpired()
    _, ok := c.items[key]
    return ok }\<close>
\<close>

definition Contains_any ::
  "int64 \<Rightarrow> 'k gokey \<Rightarrow> ('k, 'v, 'w) TimedCache_any \<Rightarrow> (bool \<times> ('k, 'v, 'w) TimedCache_any) option" where
  "Contains_any now k g0 = do {
     g \<leftarrow> purgeExpired_any now g0;
     Some (items_index g k \<noteq> None, g)
   }"

text \<open>
  \<^verbatim>\<open>func (c *TimedCache) Peek(key interface{}) (interface{}, bool) {
    c.Lock(); defer c.Unlock()
    c.purgeExpired()
    if ent, ok := c.items[key]; ok { return ent.Value.(*entry).value, true }
    return nil, false }\<close>
\<close>

definition Peek_any ::
  "int64 \<Rightarrow> 'k gokey \<Rightarrow> ('k, 'v, 'w) TimedCache_any \<Rightarrow>
     (('v option \<times> bool) \<times> ('k, 'v, 'w) TimedCache_any) option" where
  "Peek_any now k g0 = do {
     g \<leftarrow> purgeExpired_any now g0;
     (case items_index g k of
        Some e \<Rightarrow> do { ent \<leftarrow> entry_at (cache g) e; Some ((Some (val ent), True), g) }
      | None \<Rightarrow> Some ((None, False), g))
   }"

text \<open>
  \<^verbatim>\<open>func (c *TimedCache) Remove(key interface{}) bool {
    c.Lock(); defer c.Unlock()
    c.purgeExpired()
    if ent, ok := c.items[key]; ok { c.removeElement(ent); return true }
    return false }\<close>
\<close>

definition Remove_any ::
  "int64 \<Rightarrow> 'k gokey \<Rightarrow> ('k, 'v, 'w) TimedCache_any \<Rightarrow> (bool \<times> ('k, 'v, 'w) TimedCache_any) option" where
  "Remove_any now k g0 = do {
     g \<leftarrow> purgeExpired_any now g0;
     (case items_index g k of
        Some e \<Rightarrow> do { g1 \<leftarrow> removeElement_any e g; Some (True, g1) }
      | None \<Rightarrow> Some (False, g))
   }"

text \<open>
  \<^verbatim>\<open>func (c *TimedCache) Keys() []interface{} {
    c.Lock(); defer c.Unlock()
    c.purgeExpired()
    keys := make([]interface{}, len(c.items))
    i := 0
    for ent := c.evictList.Back(); ent != nil; ent = ent.Prev() {
      keys[i] = ent.Value.(*entry).key
      i++ }
    return keys }\<close>
  The loop reads the list alone: it is \<open>Keys_loop\<close>.
\<close>

definition Keys_any ::
  "int64 \<Rightarrow> ('k, 'v, 'w) TimedCache_any \<Rightarrow> ('k gokey option list \<times> ('k, 'v, 'w) TimedCache_any) option" where
  "Keys_any now g0 = do {
     g \<leftarrow> purgeExpired_any now g0;
     keys \<leftarrow> Keys_loop (cache g) (Back (cache g)) 0 (replicate (items_len g) None);
     Some (keys, g)
   }"

text \<open>
  \<^verbatim>\<open>func (c *TimedCache) Len() int {
    c.Lock(); defer c.Unlock()
    c.purgeExpired()
    return c.evictList.Len() }\<close>
\<close>

definition Len_any ::
  "int64 \<Rightarrow> ('k, 'v, 'w) TimedCache_any \<Rightarrow> (int \<times> ('k, 'v, 'w) TimedCache_any) option" where
  "Len_any now g0 = do {
     g \<leftarrow> purgeExpired_any now g0;
     Some (Len_list (cache g), g)
   }"

subsection \<open>Executions with any key\<close>

text \<open>
  A call of a public method, as in the section above, with any key and, for \<^verbatim>\<open>Purge\<close>,
  the entries of the map in the order in which \<^verbatim>\<open>range\<close> visits them.
\<close>

datatype ('k, 'v) method_call_any =
    Add_any_call int64 int64 "'k gokey" 'v
  | Update_any_call int64 int64 "'k gokey" 'v
  | Get_any_call int64 int64 "'k gokey"
  | Contains_any_call int64 "'k gokey"
  | Peek_any_call int64 "'k gokey"
  | Remove_any_call int64 "'k gokey"
  | Keys_any_call int64
  | Len_any_call int64
  | Purge_any_call "'k visit list"
  | PurgeExpired_any_call int64

fun call_any ::
  "('k, 'v) method_call_any \<Rightarrow> ('k, 'v, 'w) TimedCache_any \<Rightarrow>
     (('k gokey, 'v) ret \<times> ('k, 'v, 'w) TimedCache_any) option" where
  "call_any (Add_any_call now now' k v) g = map_option (\<lambda>(r, g'). (Bool_ret r, g')) (Add_any now now' k v g)"
| "call_any (Update_any_call now now' k v) g = map_option (\<lambda>(r, g'). (Bool_ret r, g')) (Update_any now now' k v g)"
| "call_any (Get_any_call now now' k) g = map_option (\<lambda>((v, ok), g'). (Val_ret v ok, g')) (Get_any now now' k g)"
| "call_any (Contains_any_call now k) g = map_option (\<lambda>(r, g'). (Bool_ret r, g')) (Contains_any now k g)"
| "call_any (Peek_any_call now k) g = map_option (\<lambda>((v, ok), g'). (Val_ret v ok, g')) (Peek_any now k g)"
| "call_any (Remove_any_call now k) g = map_option (\<lambda>(r, g'). (Bool_ret r, g')) (Remove_any now k g)"
| "call_any (Keys_any_call now) g = map_option (\<lambda>(r, g'). (Keys_ret r, g')) (Keys_any now g)"
| "call_any (Len_any_call now) g = map_option (\<lambda>(r, g'). (Len_ret r, g')) (Len_any now g)"
| "call_any (Purge_any_call vs) g =
     (if range_order_any vs g then map_option (\<lambda>g'. (No_ret, g')) (Purge_any vs g) else None)"
| "call_any (PurgeExpired_any_call now) g = map_option (\<lambda>g'. (No_ret, g')) (PurgeExpired_any now g)"

fun run_any ::
  "('k, 'v) method_call_any list \<Rightarrow> ('k, 'v, 'w) TimedCache_any \<Rightarrow>
     (('k gokey, 'v) ret list \<times> ('k, 'v, 'w) TimedCache_any) option" where
  "run_any [] g = Some ([], g)"
| "run_any (x # xs) g = do {
     (r, g1) \<leftarrow> call_any x g;
     (rs, g2) \<leftarrow> run_any xs g1;
     Some (r # rs, g2)
   }"

text \<open>
  After a sequence of calls: the keys of the map with \<^verbatim>\<open>len(c.items)\<close>, and the entries of
  the recency list (front first) with its \<^verbatim>\<open>len\<close>.
\<close>

definition map_after ::
  "('k, 'v) method_call_any list \<Rightarrow> ('k, 'v, 'w) TimedCache_any \<Rightarrow> ('k gokey set \<times> nat) option" where
  "map_after xs g = map_option (\<lambda>(rs, g'). (items_keys g', items_len g')) (run_any xs g)"

definition list_after ::
  "('k, 'v) method_call_any list \<Rightarrow> ('k, 'v, 'w) TimedCache_any \<Rightarrow>
     (('k gokey, 'v) entry list \<times> int) option" where
  "list_after xs g = map_option (\<lambda>(rs, g'). (entries (cache g'), len (cache g'))) (run_any xs g)"

text \<open>A call of \<^verbatim>\<open>Add\<close> with a key that is not equal to itself.\<close>

fun adds_NaN :: "('k, 'v) method_call_any \<Rightarrow> bool" where
  "adds_NaN (Add_any_call now now' NaN v) = True"
| "adds_NaN x = False"

section \<open>The cache in good order\<close>

text \<open>
  \<open>chain N P p xs q\<close>: following \<^verbatim>\<open>next\<close> (\<open>N\<close>) from \<open>p\<close> visits \<open>xs\<close> and then \<open>q\<close>, and
  \<^verbatim>\<open>prev\<close> (\<open>P\<close>) leads back the same way.
\<close>

fun chain :: "(addr \<Rightarrow> addr option) \<Rightarrow> (addr \<Rightarrow> addr option) \<Rightarrow> addr \<Rightarrow> addr list \<Rightarrow> addr \<Rightarrow> bool" where
  "chain N P p [] q \<longleftrightarrow> N p = Some q \<and> P q = Some p"
| "chain N P p (x # xs) q \<longleftrightarrow> N p = Some x \<and> P x = Some p \<and> chain N P x xs q"

text \<open>
  \<open>wf_list c xs\<close>: the list of the cache is the ring sentinel, \<open>xs\<close>, sentinel, front
  first; its elements are distinct allocated elements that carry the list in their
  \<^verbatim>\<open>list\<close> field, and \<^verbatim>\<open>len\<close> counts them.
\<close>

definition wf_list :: "('k, 'v, 'w) TimedCache \<Rightarrow> addr list \<Rightarrow> bool" where
  "wf_list c xs \<longleftrightarrow>
     chain (nxt c) (prv c) root xs root \<and> distinct xs \<and> root \<notin> set xs \<and>
     len c = int (length xs) \<and> (\<forall>a\<in>set xs. lst c a \<and> a < nalloc c) \<and> root < nalloc c"

text \<open>The key of the entry an element holds.\<close>

definition key_at :: "('k, 'v, 'w) TimedCache \<Rightarrow> addr \<Rightarrow> 'k" where
  "key_at c a = key (the (entry_at c a))"

text \<open>
  \<open>wf_cache c xs\<close>: the list is in good order with elements \<open>xs\<close>, each holds an
  entry, and the map sends a key to an element exactly when that element is in the
  list and holds an entry with that key.
\<close>

definition wf_cache :: "('k, 'v, 'w) TimedCache \<Rightarrow> addr list \<Rightarrow> bool" where
  "wf_cache c xs \<longleftrightarrow>
     wf_list c xs \<and> (\<forall>a\<in>set xs. entry_at c a \<noteq> None) \<and>
     (\<forall>k a. items c k = Some a \<longleftrightarrow> a \<in> set xs \<and> key_at c a = k)"

definition ents :: "('k, 'v, 'w) TimedCache \<Rightarrow> addr list \<Rightarrow> ('k, 'v) entry list" where
  "ents c xs = map (\<lambda>a. the (entry_at c a)) xs"

text \<open>The state a sequence of calls leaves (the starting state when a call panics).\<close>

definition state_after :: "('k, 'v) method_call list \<Rightarrow> ('k, 'v, 'w) TimedCache \<Rightarrow> ('k, 'v, 'w) TimedCache" where
  "state_after xs c = (case run xs c of Some (rs, c') \<Rightarrow> c' | None \<Rightarrow> c)"

text \<open>
  Two states for the examples: duration 4 and a recording callback, key 1 added at
  t = 0 and key 2 at t = 2; and the same after a sweep at t = 5, which removes key 1.
\<close>

definition two_entries :: "(nat, string, (nat \<times> string) list) TimedCache" where
  "two_entries =
     state_after [Add_call 0 0 1 ''a'', Add_call 2 2 2 ''b''] (NewTimedCache 4 record_evictions [])"


text \<open>The same two entries in a cache with no callback.\<close>

definition two_entries_nil :: "(nat, string, (nat \<times> string) list) TimedCache" where
  "two_entries_nil =
     state_after [Add_call 0 0 1 ''a'', Add_call 2 2 2 ''b''] (NewTimedCache 4 None [])"


text \<open>
  A cache of the first section, over the keys \<open>'k gokey\<close>, as a cache with any key
  whose map has no entry under a key not equal to itself.
\<close>

definition lift :: "('k gokey, 'v, 'w) TimedCache \<Rightarrow> ('k, 'v, 'w) TimedCache_any" where
  "lift c = \<lparr>cache = c, nan_items = []\<rparr>"

section \<open>Lemmas\<close>

subsection \<open>Evaluating the model\<close>

text \<open>
  The definitions to unfold when a sequence of calls is run on a concrete cache.
\<close>

lemmas run_simps =
  NewTimedCache_def Init_def Add_def Update_def Get_def Peek_def Contains_def Remove_def
  Keys_def Len_def Len_list_def Purge_def range_order_def PurgeExpired_def purgeExpired_def
  Back_def Front_def Next_def Prev_def PushFront_def lazyInit_def insertValue_def
  insert_elem_def MoveToFront_def move_elem_def Remove_list_def remove_elem_def
  removeElement_def entry_at_def expired_def root_def Let_def
  entries_def elements_def List.map_filter_simps eval_nat_numeral
  entries_after_def world_after_def rets_after_def items_after_def record_evictions_def
  state_after_def

subsection \<open>Links of the ring\<close>

text \<open>
  A write to \<^verbatim>\<open>next\<close> or \<^verbatim>\<open>prev\<close> of an element outside a stretch of the ring leaves the
  stretch linked; unlinking an element joins its neighbours; linking a new element
  after the sentinel puts it in front.
\<close>

lemma chain_upd_N: "x \<notin> set (p # xs) \<Longrightarrow> chain (N(x := v)) P p xs q = chain N P p xs q"
  by (induction xs arbitrary: p) auto

lemma chain_upd_P: "x \<notin> set (xs @ [q]) \<Longrightarrow> chain N (P(x := v)) p xs q = chain N P p xs q"
  by (induction xs arbitrary: p) auto

lemma chain_hd: "chain N P p xs q \<Longrightarrow> N p = Some (hd (xs @ [q]))"
  by (cases xs) auto

lemma chain_last: "chain N P p xs q \<Longrightarrow> P q = Some (last (p # xs))"
  by (induction xs arbitrary: p) auto

lemma chain_unlink:
  "chain N P p (ys @ a # zs) q \<Longrightarrow> distinct (p # ys @ a # zs) \<Longrightarrow> q \<notin> set (ys @ a # zs) \<Longrightarrow>
   pr = last (p # ys) \<Longrightarrow> n = hd (zs @ [q]) \<Longrightarrow>
   N a = Some n \<and> P a = Some pr \<and> chain (N(pr := Some n)) (P(n := Some pr)) p (ys @ zs) q"
proof (induction ys arbitrary: p)
  case Nil
  show ?case
  proof (cases zs)
    case Nil
    with Nil.prems show ?thesis by simp
  next
    case (Cons z zs')
    with Nil.prems have "chain N P z zs' q" "p \<notin> set (z # zs')" "z \<notin> set (zs' @ [q])"
      by auto
    then have "chain (N(p := Some z)) (P(z := Some p)) z zs' q"
      by (simp add: chain_upd_N chain_upd_P)
    then have c: "chain (N(p := Some z)) (P(z := Some p)) p (z # zs') q"
      by simp
    have "N a = Some z" "P a = Some p"
      using Nil.prems(1) Cons by simp_all
    moreover have "pr = p" "n = z" "[] @ zs = z # zs'"
      using Nil.prems(4,5) Cons by simp_all
    ultimately show ?thesis
      using c by (simp only: simp_thms)
  qed
next
  case (Cons y ys)
  from Cons.prems have 1: "N p = Some y" "P y = Some p" "chain N P y (ys @ a # zs) q"
    by simp_all
  from Cons.prems have 2: "distinct (y # ys @ a # zs)" "q \<notin> set (ys @ a # zs)"
    by simp_all
  from Cons.prems have 3: "pr = last (y # ys)"
    by simp
  note ih = Cons.IH [OF 1(3) 2 3 Cons.prems(5)]
  have 4: "p \<noteq> pr"
    using Cons.prems(2) last_in_set [of "y # ys"] 3 by auto
  have 5: "y \<noteq> n"
    using Cons.prems(2,3,5) by (cases zs) auto
  show ?case
    using ih 1 4 5 by simp
qed

lemma chain_link_front:
  assumes "chain N P p xs q" "a \<notin> set (p # xs @ [q])" "distinct (p # xs)" "q \<notin> set xs"
  shows "chain (N(a := N p, p := Some a)) (P(a := Some p, hd (xs @ [q]) := Some a)) p (a # xs) q"
proof (cases xs)
  case Nil
  with assms show ?thesis by simp
next
  case (Cons z zs)
  with assms have "chain N P z zs q" "a \<notin> set (z # zs)" "p \<notin> set (z # zs)"
      "a \<notin> set (zs @ [q])" "z \<notin> set (zs @ [q])"
    by auto
  then have "chain (N(a := N p, p := Some a)) (P(a := Some p, z := Some a)) z zs q"
    by (simp add: chain_upd_N chain_upd_P)
  with Cons assms show ?thesis by simp
qed

subsection \<open>The list primitives on a list in good order\<close>

text \<open>
  What \<^verbatim>\<open>remove\<close>, \<^verbatim>\<open>move\<close> and \<^verbatim>\<open>PushFront\<close> write when the pointers they follow are not
  nil, and that on a list in good order they are not and the list stays in good
  order: without the removed element, with the moved element in front, with the new
  element in front.
\<close>

lemma remove_elem_eq:
  "prv c a = Some p \<Longrightarrow> nxt c a = Some n \<Longrightarrow> p \<noteq> a \<Longrightarrow>
   remove_elem a c =
     Some (c\<lparr>nxt := (nxt c)(p := Some n, a := None), prv := (prv c)(n := Some p, a := None),
            lst := (lst c)(a := False), len := len c - 1\<rparr>)"
  by (simp add: remove_elem_def)

lemma move_elem_eq:
  "prv c a = Some p \<Longrightarrow> nxt c a = Some n \<Longrightarrow> nxt c root = Some f \<Longrightarrow>
   p \<noteq> a \<Longrightarrow> p \<noteq> root \<Longrightarrow> a \<noteq> root \<Longrightarrow>
   move_elem a root c =
     Some (c\<lparr>nxt := (nxt c)(p := Some n, a := Some f, root := Some a),
            prv := (prv c)(n := Some p, a := Some root, f := Some a)\<rparr>)"
  by (simp add: move_elem_def)

lemma PushFront_eq:
  "nxt c root = Some f \<Longrightarrow> root < nalloc c \<Longrightarrow>
   PushFront v c =
     Some (nalloc c,
       c\<lparr>nxt := (nxt c)(nalloc c := Some f, root := Some (nalloc c)),
         prv := (prv c)(nalloc c := Some root, f := Some (nalloc c)),
         lst := (lst c)(nalloc c := True), Value := (Value c)(nalloc c := v),
         nalloc := Suc (nalloc c), len := len c + 1\<rparr>)"
  by (simp add: PushFront_def lazyInit_def insertValue_def insert_elem_def Let_def)

lemma wf_list_neighbours:
  assumes "wf_list c (ys @ a # zs)"
  shows "prv c a = Some (last (root # ys))" "nxt c a = Some (hd (zs @ [root]))"
    "last (root # ys) \<noteq> a" "hd (zs @ [root]) \<noteq> a" "a \<noteq> root" "lst c a"
    "nxt c root = Some (hd (ys @ [a]))"
proof -
  from assms have ch: "chain (nxt c) (prv c) root (ys @ a # zs) root"
    and d: "distinct (root # ys @ a # zs)" and r: "root \<notin> set (ys @ a # zs)"
    by (simp_all add: wf_list_def)
  from chain_unlink [OF ch d r refl refl]
  show "prv c a = Some (last (root # ys))" "nxt c a = Some (hd (zs @ [root]))"
    by simp_all
  show "last (root # ys) \<noteq> a"
    using d last_in_set [of "root # ys"] by auto
  show "hd (zs @ [root]) \<noteq> a"
    using d by (cases zs) auto
  show "a \<noteq> root"
    using r by auto
  show "lst c a"
    using assms by (simp add: wf_list_def)
  show "nxt c root = Some (hd (ys @ [a]))"
    using ch by (cases ys) simp_all
qed

lemma wf_list_remove:
  assumes "wf_list c (ys @ a # zs)" "p = last (root # ys)" "n = hd (zs @ [root])"
  shows "remove_elem a c =
     Some (c\<lparr>nxt := (nxt c)(p := Some n, a := None), prv := (prv c)(n := Some p, a := None),
            lst := (lst c)(a := False), len := len c - 1\<rparr>)"
    and "wf_list (c\<lparr>nxt := (nxt c)(p := Some n, a := None), prv := (prv c)(n := Some p, a := None),
            lst := (lst c)(a := False), len := len c - 1\<rparr>) (ys @ zs)"
proof -
  note nb = wf_list_neighbours [OF assms(1)]
  show "remove_elem a c =
     Some (c\<lparr>nxt := (nxt c)(p := Some n, a := None), prv := (prv c)(n := Some p, a := None),
            lst := (lst c)(a := False), len := len c - 1\<rparr>)"
    using nb assms(2,3) by (intro remove_elem_eq) simp_all
  from assms have ch: "chain (nxt c) (prv c) root (ys @ a # zs) root"
    and d: "distinct (root # ys @ a # zs)" and r: "root \<notin> set (ys @ a # zs)"
    by (simp_all add: wf_list_def)
  from chain_unlink [OF ch d r assms(2,3)]
  have "chain ((nxt c)(p := Some n)) ((prv c)(n := Some p)) root (ys @ zs) root"
    by simp
  moreover have "a \<notin> set (root # ys @ zs)" "a \<notin> set ((ys @ zs) @ [root])"
    using d by auto
  ultimately have "chain ((nxt c)(p := Some n, a := None)) ((prv c)(n := Some p, a := None)) root (ys @ zs) root"
    by (simp add: chain_upd_N chain_upd_P)
  then show "wf_list (c\<lparr>nxt := (nxt c)(p := Some n, a := None), prv := (prv c)(n := Some p, a := None),
            lst := (lst c)(a := False), len := len c - 1\<rparr>) (ys @ zs)"
    using assms(1) by (auto simp: wf_list_def)
qed

lemma wf_list_MoveToFront_front:
  assumes "wf_list c (a # zs)"
  shows "MoveToFront a c = Some c"
  using wf_list_neighbours(7) [of c "[]" a zs] assms by (simp add: MoveToFront_def)

lemma wf_list_MoveToFront:
  assumes "wf_list c (ys @ a # zs)" "ys \<noteq> []"
    "p = last ys" "n = hd (zs @ [root])" "f = hd ys"
  shows "MoveToFront a c =
     Some (c\<lparr>nxt := (nxt c)(p := Some n, a := Some f, root := Some a),
            prv := (prv c)(n := Some p, a := Some root, f := Some a)\<rparr>)"
    and "wf_list (c\<lparr>nxt := (nxt c)(p := Some n, a := Some f, root := Some a),
            prv := (prv c)(n := Some p, a := Some root, f := Some a)\<rparr>) (a # ys @ zs)"
proof -
  note nb = wf_list_neighbours [OF assms(1)]
  from assms have ch: "chain (nxt c) (prv c) root (ys @ a # zs) root"
    and d: "distinct (root # ys @ a # zs)" and r: "root \<notin> set (ys @ a # zs)"
    by (simp_all add: wf_list_def)
  have p: "p = last (root # ys)" "p \<in> set ys" "f \<in> set ys" "hd (ys @ [a]) = f"
    using assms(2,3,5) by simp_all
  then have pr: "p \<noteq> root" "f \<noteq> a" "p \<noteq> a"
    using d by auto
  have "move_elem a root c =
     Some (c\<lparr>nxt := (nxt c)(p := Some n, a := Some f, root := Some a),
            prv := (prv c)(n := Some p, a := Some root, f := Some a)\<rparr>)"
    using nb p pr assms(4) by (intro move_elem_eq) simp_all
  then show "MoveToFront a c =
     Some (c\<lparr>nxt := (nxt c)(p := Some n, a := Some f, root := Some a),
            prv := (prv c)(n := Some p, a := Some root, f := Some a)\<rparr>)"
    using nb pr p by (simp add: MoveToFront_def)
  from chain_unlink [OF ch d r p(1) assms(4)]
  have 1: "chain ((nxt c)(p := Some n)) ((prv c)(n := Some p)) root (ys @ zs) root"
    by simp
  have 2: "a \<notin> set (root # (ys @ zs) @ [root])" "distinct (root # ys @ zs)" "root \<notin> set (ys @ zs)"
    using d by auto
  have 3: "((nxt c)(p := Some n)) root = Some f" "hd ((ys @ zs) @ [root]) = f"
    using nb(7) pr p assms(2) by simp_all
  from chain_link_front [OF 1 2]
  have "chain ((nxt c)(p := Some n, a := Some f, root := Some a))
          ((prv c)(n := Some p, a := Some root, f := Some a)) root (a # ys @ zs) root"
    unfolding 3 .
  then show "wf_list (c\<lparr>nxt := (nxt c)(p := Some n, a := Some f, root := Some a),
            prv := (prv c)(n := Some p, a := Some root, f := Some a)\<rparr>) (a # ys @ zs)"
    using assms(1) by (auto simp: wf_list_def)
qed

lemma wf_list_PushFront:
  assumes "wf_list c xs" "f = hd (xs @ [root])" "e = nalloc c"
  shows "PushFront v c =
     Some (e, c\<lparr>nxt := (nxt c)(e := Some f, root := Some e),
         prv := (prv c)(e := Some root, f := Some e),
         lst := (lst c)(e := True), Value := (Value c)(e := v),
         nalloc := Suc e, len := len c + 1\<rparr>)"
    and "wf_list (c\<lparr>nxt := (nxt c)(e := Some f, root := Some e),
         prv := (prv c)(e := Some root, f := Some e),
         lst := (lst c)(e := True), Value := (Value c)(e := v),
         nalloc := Suc e, len := len c + 1\<rparr>) (e # xs)"
proof -
  from assms have ch: "chain (nxt c) (prv c) root xs root"
    and d: "distinct (root # xs)" and r: "root \<notin> set xs"
    and b: "\<forall>a\<in>set xs. a < nalloc c" "root < nalloc c"
    by (simp_all add: wf_list_def)
  have f: "nxt c root = Some f"
    using chain_hd [OF ch] assms(2) by simp
  show "PushFront v c =
     Some (e, c\<lparr>nxt := (nxt c)(e := Some f, root := Some e),
         prv := (prv c)(e := Some root, f := Some e),
         lst := (lst c)(e := True), Value := (Value c)(e := v),
         nalloc := Suc e, len := len c + 1\<rparr>)"
    unfolding assms(3) using f b(2) by (rule PushFront_eq)
  have e: "e \<notin> set (root # xs @ [root])"
    using b assms(3) by auto
  from chain_link_front [OF ch e d r]
  have "chain ((nxt c)(e := Some f, root := Some e)) ((prv c)(e := Some root, f := Some e)) root (e # xs) root"
    unfolding f assms(2) .
  then show "wf_list (c\<lparr>nxt := (nxt c)(e := Some f, root := Some e),
         prv := (prv c)(e := Some root, f := Some e),
         lst := (lst c)(e := True), Value := (Value c)(e := v),
         nalloc := Suc e, len := len c + 1\<rparr>) (e # xs)"
    using assms(1) e by (auto simp: wf_list_def assms(3))
qed

lemma wf_list_Back: "wf_list c xs \<Longrightarrow> Back c = (if xs = [] then None else Some (last xs))"
  using chain_last [of "nxt c" "prv c" root xs root]
  by (auto simp: wf_list_def Back_def)

lemma wf_list_Front: "wf_list c xs \<Longrightarrow> Front c = (if xs = [] then None else Some (hd xs))"
  using chain_hd [of "nxt c" "prv c" root xs root]
  by (cases xs) (auto simp: wf_list_def Front_def)

lemma wf_list_Prev:
  assumes "wf_list c (ys @ a # zs)"
  shows "Prev c a = (if ys = [] then None else Some (last ys))"
proof (cases "ys = []")
  case True
  then show ?thesis
    using wf_list_neighbours(1) [OF assms] by (simp add: Prev_def)
next
  case False
  then have "last ys \<in> set ys" by simp
  moreover have "root \<notin> set ys"
    using assms by (simp add: wf_list_def)
  ultimately have "last ys \<noteq> root" by metis
  then show ?thesis
    using wf_list_neighbours(1,6) [OF assms] False by (simp add: Prev_def)
qed

lemma wf_list_Next:
  "wf_list c (ys @ a # zs) \<Longrightarrow> Next c a = (if zs = [] then None else Some (hd zs))"
  using wf_list_neighbours [of c ys a zs]
  by (cases zs) (auto simp: Next_def wf_list_def)

lemma walk_chain:
  "wf_list c (ys @ zs) \<Longrightarrow> walk c (length zs) (if zs = [] then None else Some (hd zs)) = zs"
proof (induction zs arbitrary: ys)
  case Nil
  then show ?case by simp
next
  case (Cons z zs)
  from Cons.prems have "wf_list c ((ys @ [z]) @ zs)"
    by simp
  from Cons.IH [OF this] wf_list_Next [OF Cons.prems] show ?case
    by simp
qed

lemma wf_list_elements: "wf_list c xs \<Longrightarrow> elements c = xs"
  using walk_chain [of c "[]" xs] wf_list_Front [of c xs]
  by (simp add: elements_def wf_list_def)

subsection \<open>The map and the list together\<close>

lemma wf_cache_entries: "wf_cache c xs \<Longrightarrow> entries c = ents c xs"
  by (auto simp: wf_cache_def entries_def ents_def wf_list_elements List.map_filter_def
      intro!: map_cong)

lemma wf_cache_items_iff:
  "wf_cache c xs \<Longrightarrow> items c k = Some a \<longleftrightarrow> a \<in> set xs \<and> key_at c a = k"
  by (simp add: wf_cache_def)

lemma wf_cache_entry:
  "wf_cache c xs \<Longrightarrow> a \<in> set xs \<Longrightarrow> \<exists>ent. entry_at c a = Some ent"
  unfolding wf_cache_def by blast

lemma wf_cache_items_key:
  "wf_cache c xs \<Longrightarrow> a \<in> set xs \<Longrightarrow> items c (key_at c a) = Some a"
  by (simp add: wf_cache_items_iff)

lemma wf_cache_dom: "wf_cache c xs \<Longrightarrow> dom (items c) = key ` set (ents c xs)"
  by (auto simp: wf_cache_items_iff ents_def key_at_def dom_def image_iff)

lemma wf_cache_inj: "wf_cache c xs \<Longrightarrow> inj_on (key_at c) (set xs)"
  by (rule inj_onI) (metis wf_cache_items_key option.inject)

lemma wf_cache_distinct_keys: "wf_cache c xs \<Longrightarrow> distinct (map key (ents c xs))"
  using wf_cache_inj [of c xs]
  by (simp add: ents_def distinct_map comp_def wf_cache_def wf_list_def key_at_def [abs_def])

lemma wf_cache_card:
  assumes wf: "wf_cache c xs"
  shows "card (dom (items c)) = length xs"
proof -
  have "dom (items c) = key_at c ` set xs"
    using wf_cache_items_iff [OF wf] by (auto simp: dom_def image_iff)
  moreover have "distinct xs"
    using wf by (simp add: wf_cache_def wf_list_def)
  ultimately show ?thesis
    using wf_cache_inj [OF wf] by (simp add: card_image distinct_card)
qed

lemma ents_cong: "(\<And>a. a \<in> set xs \<Longrightarrow> Value c' a = Value c a) \<Longrightarrow> ents c' xs = ents c xs"
  by (simp add: ents_def entry_at_def)

lemma wf_cache_update:
  assumes "wf_cache c xs" "wf_list c' xs'" "set xs' = set xs" "items c' = items c"
    "\<And>a. a \<in> set xs \<Longrightarrow> entry_at c' a \<noteq> None \<and> key_at c' a = key_at c a"
  shows "wf_cache c' xs'"
  unfolding wf_cache_def
proof (intro conjI allI ballI)
  show "wf_list c' xs'" by fact
next
  fix a assume "a \<in> set xs'"
  with assms(3,5) show "entry_at c' a \<noteq> None" by simp
next
  fix k a
  show "items c' k = Some a \<longleftrightarrow> a \<in> set xs' \<and> key_at c' a = k"
    using wf_cache_items_iff [OF assms(1), of k a] assms(3,4,5) by auto
qed

lemma wf_cache_split:
  assumes wf: "wf_cache c xs" and k: "items c k = Some a"
  shows "\<exists>ys zs ent. xs = ys @ a # zs \<and> entry_at c a = Some ent \<and> key ent = k"
proof -
  from wf_cache_items_iff [OF wf, of k a] k have a: "a \<in> set xs" "key_at c a = k"
    by simp_all
  from wf_cache_entry [OF wf a(1)] obtain ent where "entry_at c a = Some ent" ..
  with a split_list [OF a(1)] show ?thesis
    by (auto simp: key_at_def)
qed

lemma wf_cache_New: "wf_cache (NewTimedCache d cb w) []"
  by (simp add: wf_cache_def wf_list_def NewTimedCache_def Init_def root_def)

subsection \<open>The sweep\<close>

text \<open>
  On a cache in good order \<^verbatim>\<open>purgeExpired\<close> removes the element at the back when its
  entry has expired, and does nothing else: after \<^verbatim>\<open>removeElement\<close> the loop variable
  has no predecessor (\<open>removeElement_Prev\<close>).
\<close>

lemma removeElement_wf:
  assumes wf: "wf_cache c (ys @ a # zs)"
  shows "\<exists>c' ent. removeElement a c = Some c' \<and> entry_at c a = Some ent \<and> wf_cache c' (ys @ zs) \<and>
     Value c' = Value c \<and> items c' = (items c)(key ent := None) \<and>
     world c' = (case onEvictCall c of None \<Rightarrow> world c | Some f \<Rightarrow> f (key ent) (val ent) (world c)) \<and>
     duration c' = duration c \<and> onEvictCall c' = onEvictCall c"
proof -
  from wf_cache_entry [OF wf, of a] obtain ent where ent: "entry_at c a = Some ent"
    by auto
  from wf have wl: "wf_list c (ys @ a # zs)"
    by (simp add: wf_cache_def)
  define p n where "p = last (root # ys)" and "n = hd (zs @ [root])"
  define c1 where "c1 = c\<lparr>nxt := (nxt c)(p := Some n, a := None), prv := (prv c)(n := Some p, a := None),
            lst := (lst c)(a := False), len := len c - 1\<rparr>"
  note rm = wf_list_remove [OF wl p_def n_def, folded c1_def]
  have la: "lst c a"
    using wf_list_neighbours(6) [OF wl] .
  have ea: "entry_at c1 a = Some ent"
    using ent by (simp add: c1_def entry_at_def)
  define c' where "c' = (case onEvictCall c of
        None \<Rightarrow> c1\<lparr>items := (items c)(key ent := None)\<rparr>
      | Some f \<Rightarrow> c1\<lparr>items := (items c)(key ent := None), world := f (key ent) (val ent) (world c)\<rparr>)"
  have 1: "removeElement a c = Some c'"
    using rm(1) la ea by (simp add: removeElement_def Remove_list_def c'_def c1_def split: option.splits)
  have fr: "nxt c' = nxt c1" "prv c' = prv c1" "lst c' = lst c1" "len c' = len c1"
      "nalloc c' = nalloc c1" "Value c' = Value c" "items c' = (items c)(key ent := None)"
      "duration c' = duration c" "onEvictCall c' = onEvictCall c"
      "world c' = (case onEvictCall c of None \<Rightarrow> world c | Some f \<Rightarrow> f (key ent) (val ent) (world c))"
    by (simp_all add: c'_def c1_def split: option.splits)
  have wl': "wf_list c' (ys @ zs)"
    using rm(2) fr by (simp add: wf_list_def)
  have e': "entry_at c' = entry_at c" "key_at c' = key_at c"
    using fr by (simp_all add: entry_at_def key_at_def fun_eq_iff)
  have d: "distinct (ys @ a # zs)"
    using wl by (simp add: wf_list_def)
  have ka: "key_at c a = key ent"
    using ent by (simp add: key_at_def)
  have "wf_cache c' (ys @ zs)"
    unfolding wf_cache_def
  proof (intro conjI allI ballI)
    show "wf_list c' (ys @ zs)" by (rule wl')
  next
    fix b assume "b \<in> set (ys @ zs)"
    then show "entry_at c' b \<noteq> None"
      using wf e' by (auto simp: wf_cache_def)
  next
    fix k b
    have "b \<in> set (ys @ a # zs) \<and> key_at c b = key ent \<longleftrightarrow> b = a"
      using inj_onD [OF wf_cache_inj [OF wf], of b a] ka by auto
    then show "items c' k = Some b \<longleftrightarrow> b \<in> set (ys @ zs) \<and> key_at c' b = k"
      using wf_cache_items_iff [OF wf, of k b] d by (auto simp: fr(7) e')
  qed
  with 1 ent fr show ?thesis
    by (intro exI [of _ c'] exI [of _ ent]) simp
qed

lemma purgeExpired_wf:
  assumes wf: "wf_cache c xs"
  shows "purgeExpired now c =
     (if xs \<noteq> [] \<and> expired now (duration c) (last (ents c xs))
      then removeElement (last xs) c else Some c)"
proof (cases "xs = []")
  case True
  then show ?thesis
    using wf wf_list_Back [of c xs] by (simp add: purgeExpired_def wf_cache_def)
next
  case False
  then have xs: "xs = butlast xs @ last xs # []"
    by simp
  from wf have b: "Back c = Some (last xs)"
    using wf_list_Back [of c xs] False by (simp add: wf_cache_def)
  from wf xs have wf': "wf_cache c (butlast xs @ last xs # [])"
    by simp
  from removeElement_wf [OF wf'] obtain c' ent where
    r: "removeElement (last xs) c = Some c'" "entry_at c (last xs) = Some ent"
    by blast
  have l: "last (ents c xs) = ent"
    using False r(2) by (simp add: ents_def last_map)
  show ?thesis
    using False b r l removeElement_Prev [OF r(1)] by (simp add: purgeExpired_def)
qed

lemma purgeExpired_wf_ex:
  assumes wf: "wf_cache c xs"
  shows "\<exists>c'. purgeExpired now c = Some c' \<and>
     wf_cache c' (if xs \<noteq> [] \<and> expired now (duration c) (last (ents c xs)) then butlast xs else xs) \<and>
     Value c' = Value c \<and> duration c' = duration c \<and> onEvictCall c' = onEvictCall c \<and>
     items c' = (if xs \<noteq> [] \<and> expired now (duration c) (last (ents c xs))
                 then (items c)(key (last (ents c xs)) := None) else items c) \<and>
     world c' = (if xs \<noteq> [] \<and> expired now (duration c) (last (ents c xs))
                 then (case onEvictCall c of None \<Rightarrow> world c
                       | Some f \<Rightarrow> f (key (last (ents c xs))) (val (last (ents c xs))) (world c))
                 else world c)"
proof (cases "xs \<noteq> [] \<and> expired now (duration c) (last (ents c xs))")
  case True
  then have xs: "xs = butlast xs @ last xs # []"
    by simp
  from wf xs have wf': "wf_cache c (butlast xs @ last xs # [])"
    by simp
  from removeElement_wf [OF wf'] obtain c' ent where
    r: "removeElement (last xs) c = Some c'" "entry_at c (last xs) = Some ent"
      "wf_cache c' (butlast xs)" "Value c' = Value c" "items c' = (items c)(key ent := None)"
      "world c' = (case onEvictCall c of None \<Rightarrow> world c | Some f \<Rightarrow> f (key ent) (val ent) (world c))"
      "duration c' = duration c" "onEvictCall c' = onEvictCall c"
    by auto
  have l: "last (ents c xs) = ent"
    using True r(2) by (simp add: ents_def last_map)
  show ?thesis
    using True r l by (simp add: purgeExpired_wf [OF wf] cong: option.case_cong)
next
  case False
  then show ?thesis
    using wf by (auto simp: purgeExpired_wf [OF wf])
qed




subsection \<open>The public methods\<close>

lemma MoveToFront_wf:
  assumes wf: "wf_cache c (ys @ a # zs)"
  shows "\<exists>c'. MoveToFront a c = Some c' \<and> wf_cache c' (a # ys @ zs) \<and> Value c' = Value c \<and>
     items c' = items c \<and> duration c' = duration c \<and> onEvictCall c' = onEvictCall c \<and>
     world c' = world c"
proof (cases "ys = []")
  case True
  with wf show ?thesis
    using wf_list_MoveToFront_front [of c a zs] by (simp add: wf_cache_def)
next
  case False
  from wf have wl: "wf_list c (ys @ a # zs)"
    by (simp add: wf_cache_def)
  define c' where "c' = c\<lparr>nxt := (nxt c)(last ys := Some (hd (zs @ [root])), a := Some (hd ys), root := Some a),
            prv := (prv c)(hd (zs @ [root]) := Some (last ys), a := Some root, hd ys := Some a)\<rparr>"
  note m = wf_list_MoveToFront [OF wl False refl refl refl, folded c'_def]
  have fr: "Value c' = Value c" "items c' = items c" "duration c' = duration c"
      "onEvictCall c' = onEvictCall c" "world c' = world c"
    by (simp_all add: c'_def)
  have "wf_cache c' (a # ys @ zs)"
  proof (rule wf_cache_update [OF wf m(2)])
    show "set (a # ys @ zs) = set (ys @ a # zs)" by auto
    show "items c' = items c" by (rule fr)
    fix b assume "b \<in> set (ys @ a # zs)"
    from wf_cache_entry [OF wf this] show "entry_at c' b \<noteq> None \<and> key_at c' b = key_at c b"
      by (auto simp: entry_at_def key_at_def fr)
  qed
  with m(1) fr show ?thesis by (intro exI [of _ c']) simp
qed

lemma set_Value_wf:
  assumes wf: "wf_cache c (a # xs)" and e: "entry_at c a = Some ent" and k: "key ent' = key ent"
  shows "wf_cache (c\<lparr>Value := (Value c)(a := EntryPtr (Some ent'))\<rparr>) (a # xs)"
    and "ents (c\<lparr>Value := (Value c)(a := EntryPtr (Some ent'))\<rparr>) (a # xs) = ent' # ents c xs"
proof -
  let ?c = "c\<lparr>Value := (Value c)(a := EntryPtr (Some ent'))\<rparr>"
  from wf have wl: "wf_list c (a # xs)" and d: "a \<notin> set xs"
    by (simp_all add: wf_cache_def wf_list_def)
  show "wf_cache ?c (a # xs)"
  proof (rule wf_cache_update [OF wf])
    show "wf_list ?c (a # xs)"
      using wl by (simp add: wf_list_def)
    show "set (a # xs) = set (a # xs)" ..
    show "items ?c = items c" by simp
    fix b assume "b \<in> set (a # xs)"
    from wf_cache_entry [OF wf this] show "entry_at ?c b \<noteq> None \<and> key_at ?c b = key_at c b"
      using e k by (auto simp: entry_at_def key_at_def)
  qed
  show "ents ?c (a # xs) = ent' # ents c xs"
    using d by (auto simp: ents_def entry_at_def)
qed

lemma touch_wf:
  assumes wf: "wf_cache c (ys @ a # zs)" and e: "entry_at c a = Some ent" and k: "key ent' = key ent"
  shows "\<exists>c1. MoveToFront a c = Some c1 \<and> entry_at c1 a = Some ent \<and>
     wf_cache (c1\<lparr>Value := (Value c1)(a := EntryPtr (Some ent'))\<rparr>) (a # ys @ zs) \<and>
     ents (c1\<lparr>Value := (Value c1)(a := EntryPtr (Some ent'))\<rparr>) (a # ys @ zs) = ent' # ents c (ys @ zs) \<and>
     items c1 = items c \<and> world c1 = world c \<and> duration c1 = duration c \<and>
     onEvictCall c1 = onEvictCall c"
proof -
  from MoveToFront_wf [OF wf] obtain c1 where
    m: "MoveToFront a c = Some c1" "wf_cache c1 (a # ys @ zs)" "Value c1 = Value c"
      "items c1 = items c" "duration c1 = duration c" "onEvictCall c1 = onEvictCall c"
      "world c1 = world c"
    by blast
  have e1: "entry_at c1 a = Some ent"
    using e m(3) by (simp add: entry_at_def)
  have "ents c1 (ys @ zs) = ents c (ys @ zs)"
    using m(3) by (intro ents_cong) simp
  with set_Value_wf [OF m(2) e1 k] m e1 show ?thesis
    by (intro exI [of _ c1]) simp
qed

lemma Add_present:
  "purgeExpired now c0 = Some c \<Longrightarrow> items c k = Some a \<Longrightarrow> Add now now' k v c0 = Some (False, c)"
  by (simp add: Add_def)

lemma Add_absent:
  assumes sw: "purgeExpired now c0 = Some c" and wf: "wf_cache c xs" and k: "items c k = None"
  shows "\<exists>c'. Add now now' k v c0 = Some (True, c') \<and> wf_cache c' (nalloc c # xs) \<and>
     ents c' (nalloc c # xs) = \<lparr>tm = now', key = k, val = v\<rparr> # ents c xs \<and>
     items c' = (items c)(k \<mapsto> nalloc c) \<and>
     world c' = world c \<and> duration c' = duration c \<and> onEvictCall c' = onEvictCall c"
proof -
  define e where "e = nalloc c"
  define ent where "ent = \<lparr>tm = now', key = k, val = v\<rparr>"
  define c1 where "c1 = c\<lparr>nxt := (nxt c)(e := Some (hd (xs @ [root])), root := Some e),
         prv := (prv c)(e := Some root, hd (xs @ [root]) := Some e),
         lst := (lst c)(e := True), Value := (Value c)(e := EntryPtr (Some ent)),
         nalloc := Suc e, len := len c + 1\<rparr>"
  define c' where "c' = c1\<lparr>items := (items c1)(k \<mapsto> e)\<rparr>"
  from wf have wl: "wf_list c xs"
    by (simp add: wf_cache_def)
  note pf = wf_list_PushFront [OF wl refl e_def, of "EntryPtr (Some ent)", folded c1_def]
  have 1: "Add now now' k v c0 = Some (True, c')"
    using sw k pf(1) by (simp add: Add_def c'_def ent_def)
  have fr: "items c' = (items c)(k \<mapsto> e)" "world c' = world c" "duration c' = duration c"
      "onEvictCall c' = onEvictCall c" "Value c' = (Value c)(e := EntryPtr (Some ent))"
    by (simp_all add: c'_def c1_def)
  have wl': "wf_list c' (e # xs)"
    using pf(2) by (simp add: wf_list_def c'_def)
  have fresh: "e \<notin> set xs"
    using wl by (auto simp: wf_list_def e_def)
  have ea: "entry_at c' e = Some ent" "\<And>a. a \<in> set xs \<Longrightarrow> entry_at c' a = entry_at c a"
    using fresh by (auto simp: entry_at_def fr)
  then have ka: "key_at c' e = k" "\<And>a. a \<in> set xs \<Longrightarrow> key_at c' a = key_at c a"
    by (simp_all add: key_at_def ent_def)
  have en: "ents c' (e # xs) = ent # ents c xs"
    using ea by (simp add: ents_def)
  have nk: "\<And>a. a \<in> set xs \<Longrightarrow> key_at c a \<noteq> k"
    using wf_cache_items_key [OF wf] k by force
  have "wf_cache c' (e # xs)"
    unfolding wf_cache_def
  proof (intro conjI allI ballI)
    show "wf_list c' (e # xs)" by (rule wl')
  next
    fix a assume "a \<in> set (e # xs)"
    then show "entry_at c' a \<noteq> None"
      using ea wf_cache_entry [OF wf, of a] by auto
  next
    fix k' a
    show "items c' k' = Some a \<longleftrightarrow> a \<in> set (e # xs) \<and> key_at c' a = k'"
      using wf_cache_items_iff [OF wf, of k' a] fresh ka nk by (auto simp: fr(1))
  qed
  with 1 en fr show ?thesis
    unfolding e_def ent_def by (intro exI [of _ c']) simp
qed

lemma Update_present:
  assumes sw: "purgeExpired now c0 = Some c" and wf: "wf_cache c (ys @ a # zs)"
    and k: "items c k = Some a"
  shows "\<exists>c' ent. Update now now' k v c0 = Some (True, c') \<and> entry_at c a = Some ent \<and>
     wf_cache c' (a # ys @ zs) \<and>
     ents c' (a # ys @ zs) = ent\<lparr>val := v, tm := now'\<rparr> # ents c (ys @ zs) \<and>
     items c' = items c \<and> world c' = world c \<and> duration c' = duration c \<and>
     onEvictCall c' = onEvictCall c"
proof -
  from wf_cache_entry [OF wf, of a] obtain ent where ent: "entry_at c a = Some ent"
    by auto
  from touch_wf [OF wf ent, of "ent\<lparr>val := v, tm := now'\<rparr>"] obtain c1 where
    t: "MoveToFront a c = Some c1" "entry_at c1 a = Some ent"
      "wf_cache (c1\<lparr>Value := (Value c1)(a := EntryPtr (Some (ent\<lparr>val := v, tm := now'\<rparr>)))\<rparr>) (a # ys @ zs)"
      "ents (c1\<lparr>Value := (Value c1)(a := EntryPtr (Some (ent\<lparr>val := v, tm := now'\<rparr>)))\<rparr>) (a # ys @ zs)
        = ent\<lparr>val := v, tm := now'\<rparr> # ents c (ys @ zs)"
      "items c1 = items c" "world c1 = world c" "duration c1 = duration c"
      "onEvictCall c1 = onEvictCall c"
    by auto
  have "Update now now' k v c0 =
      Some (True, c1\<lparr>Value := (Value c1)(a := EntryPtr (Some (ent\<lparr>val := v, tm := now'\<rparr>)))\<rparr>)"
    using sw k t(1,2) by (simp add: Update_def entry_at_def)
  with t ent show ?thesis
    by (intro exI [of _ "c1\<lparr>Value := (Value c1)(a := EntryPtr (Some (ent\<lparr>val := v, tm := now'\<rparr>)))\<rparr>"]
        exI [of _ ent]) simp
qed

lemma Update_absent:
  "purgeExpired now c0 = Some c \<Longrightarrow> items c k = None \<Longrightarrow> Update now now' k v c0 = Some (False, c)"
  by (simp add: Update_def)

lemma Get_present:
  assumes sw: "purgeExpired now c0 = Some c" and wf: "wf_cache c (ys @ a # zs)"
    and k: "items c k = Some a"
  shows "\<exists>c' ent. Get now now' k c0 = Some ((Some (val ent), True), c') \<and> entry_at c a = Some ent \<and>
     wf_cache c' (a # ys @ zs) \<and>
     ents c' (a # ys @ zs) = ent\<lparr>tm := now'\<rparr> # ents c (ys @ zs) \<and>
     items c' = items c \<and> world c' = world c \<and> duration c' = duration c \<and>
     onEvictCall c' = onEvictCall c"
proof -
  from wf_cache_entry [OF wf, of a] obtain ent where ent: "entry_at c a = Some ent"
    by auto
  from touch_wf [OF wf ent, of "ent\<lparr>tm := now'\<rparr>"] obtain c1 where
    t: "MoveToFront a c = Some c1" "entry_at c1 a = Some ent"
      "wf_cache (c1\<lparr>Value := (Value c1)(a := EntryPtr (Some (ent\<lparr>tm := now'\<rparr>)))\<rparr>) (a # ys @ zs)"
      "ents (c1\<lparr>Value := (Value c1)(a := EntryPtr (Some (ent\<lparr>tm := now'\<rparr>)))\<rparr>) (a # ys @ zs)
        = ent\<lparr>tm := now'\<rparr> # ents c (ys @ zs)"
      "items c1 = items c" "world c1 = world c" "duration c1 = duration c"
      "onEvictCall c1 = onEvictCall c"
    by auto
  from t(2) have v: "Value c1 a = EntryPtr (Some ent)"
    by (auto simp: entry_at_def split: iface.splits)
  have "Get now now' k c0 =
      Some ((Some (val ent), True), c1\<lparr>Value := (Value c1)(a := EntryPtr (Some (ent\<lparr>tm := now'\<rparr>)))\<rparr>)"
    using sw k t(1) v by (simp add: Get_def entry_at_def)
  with t ent show ?thesis
    by (intro exI [of _ "c1\<lparr>Value := (Value c1)(a := EntryPtr (Some (ent\<lparr>tm := now'\<rparr>)))\<rparr>"]
        exI [of _ ent]) simp
qed

lemma Get_absent:
  "purgeExpired now c0 = Some c \<Longrightarrow> items c k = None \<Longrightarrow> Get now now' k c0 = Some ((None, False), c)"
  by (simp add: Get_def)

lemma Remove_present:
  assumes sw: "purgeExpired now c0 = Some c" and wf: "wf_cache c (ys @ a # zs)"
    and k: "items c k = Some a"
  shows "\<exists>c' ent. Remove now k c0 = Some (True, c') \<and> entry_at c a = Some ent \<and> key ent = k \<and>
     wf_cache c' (ys @ zs) \<and> ents c' (ys @ zs) = ents c (ys @ zs) \<and>
     items c' = (items c)(k := None) \<and>
     world c' = (case onEvictCall c of None \<Rightarrow> world c | Some f \<Rightarrow> f k (val ent) (world c)) \<and>
     duration c' = duration c \<and> onEvictCall c' = onEvictCall c"
proof -
  from removeElement_wf [OF wf] obtain c' ent where
    r: "removeElement a c = Some c'" "entry_at c a = Some ent" "wf_cache c' (ys @ zs)"
      "Value c' = Value c" "items c' = (items c)(key ent := None)"
      "world c' = (case onEvictCall c of None \<Rightarrow> world c | Some f \<Rightarrow> f (key ent) (val ent) (world c))"
      "duration c' = duration c" "onEvictCall c' = onEvictCall c"
    by blast
  have ke: "key ent = k"
    using wf_cache_items_iff [OF wf, of k a] k r(2) by (simp add: key_at_def)
  have "Remove now k c0 = Some (True, c')"
    using sw k r(1) by (simp add: Remove_def)
  moreover have "ents c' (ys @ zs) = ents c (ys @ zs)"
    using r(4) by (intro ents_cong) simp
  ultimately show ?thesis
    using r ke by (intro exI [of _ c'] exI [of _ ent]) (simp cong: option.case_cong)
qed

lemma Remove_absent:
  "purgeExpired now c0 = Some c \<Longrightarrow> items c k = None \<Longrightarrow> Remove now k c0 = Some (False, c)"
  by (simp add: Remove_def)

lemma Peek_present:
  assumes sw: "purgeExpired now c0 = Some c" and wf: "wf_cache c xs" and k: "items c k = Some a"
  shows "\<exists>ent. Peek now k c0 = Some ((Some (val ent), True), c) \<and> entry_at c a = Some ent \<and> key ent = k"
  using wf_cache_split [OF wf k] sw k by (auto simp: Peek_def)

lemma Peek_absent:
  "purgeExpired now c0 = Some c \<Longrightarrow> items c k = None \<Longrightarrow> Peek now k c0 = Some ((None, False), c)"
  by (simp add: Peek_def)

lemma Purge_loop_ok:
  assumes "\<forall>k a. items c k = Some a \<longrightarrow> entry_at c a \<noteq> None"
  shows "\<exists>w. Purge_loop ks c =
       Some (c\<lparr>items := (\<lambda>k. if k \<in> set ks then None else items c k), world := w\<rparr>) \<and>
     (onEvictCall c = None \<longrightarrow> w = world c)"
  using assms
proof (induction ks arbitrary: c)
  case Nil
  then show ?case by (intro exI [of _ "world c"]) simp
next
  case (Cons k ks)
  show ?case
  proof (cases "items c k")
    case None
    then have "(\<lambda>k'. if k' \<in> set (k # ks) then None else items c k') =
        (\<lambda>k'. if k' \<in> set ks then None else items c k')"
      by auto
    with Cons.IH [of c] Cons.prems None show ?thesis
      by simp
  next
    case (Some a)
    from Cons.prems Some obtain ent where ent: "entry_at c a = Some ent"
      by auto
    define w1 where "w1 = (case onEvictCall c of None \<Rightarrow> world c | Some f \<Rightarrow> f k (val ent) (world c))"
    define c2 where "c2 = c\<lparr>items := (items c)(k := None), world := w1\<rparr>"
    have step: "Purge_loop (k # ks) c = Purge_loop ks c2"
    proof (cases "onEvictCall c")
      case None
      then have "c2 = c\<lparr>items := (items c)(k := None)\<rparr>"
        by (simp add: c2_def w1_def)
      with Some None show ?thesis by simp
    next
      case (Some f)
      then have "c2 = c\<lparr>world := f k (val ent) (world c), items := (items c)(k := None)\<rparr>"
        by (simp add: c2_def w1_def)
      with \<open>items c k = Some a\<close> Some ent show ?thesis by simp
    qed
    have "\<forall>k' a'. items c2 k' = Some a' \<longrightarrow> entry_at c2 a' \<noteq> None"
      using Cons.prems by (auto simp: c2_def entry_at_def split: if_splits)
    from Cons.IH [OF this] obtain w where
      w: "Purge_loop ks c2 = Some (c2\<lparr>items := (\<lambda>k. if k \<in> set ks then None else items c2 k), world := w\<rparr>)"
        "onEvictCall c2 = None \<longrightarrow> w = world c2"
      by (elim exE conjE)
    have "(\<lambda>k'. if k' \<in> set ks then None else items c2 k') =
        (\<lambda>k'. if k' \<in> set (k # ks) then None else items c k')"
      by (auto simp: c2_def)
    then have "c2\<lparr>items := (\<lambda>k. if k \<in> set ks then None else items c2 k), world := w\<rparr> =
        c\<lparr>items := (\<lambda>k'. if k' \<in> set (k # ks) then None else items c k'), world := w\<rparr>"
      by (simp add: c2_def)
    with step w show ?thesis
      by (intro exI [of _ w]) (simp add: c2_def w1_def)
  qed
qed

lemma Purge_wf:
  assumes wf: "wf_cache c xs" and ro: "range_order ks c"
  shows "\<exists>c'. Purge ks c = Some c' \<and> wf_cache c' [] \<and> items c' = Map.empty \<and>
     duration c' = duration c \<and> onEvictCall c' = onEvictCall c \<and>
     (onEvictCall c = None \<longrightarrow> world c' = world c)"
proof -
  have "\<forall>k a. items c k = Some a \<longrightarrow> entry_at c a \<noteq> None"
    using wf_cache_items_iff [OF wf] wf_cache_entry [OF wf] by fastforce
  from Purge_loop_ok [where ks = ks, OF this] obtain w where
    w: "Purge_loop ks c = Some (c\<lparr>items := (\<lambda>k. if k \<in> set ks then None else items c k), world := w\<rparr>)"
      "onEvictCall c = None \<longrightarrow> w = world c"
    by (elim exE conjE)
  have e: "(\<lambda>k. if k \<in> set ks then None else items c k) = Map.empty"
    using ro by (auto simp: range_order_def fun_eq_iff)
  define c' where "c' = Init (c\<lparr>items := Map.empty, world := w\<rparr>)"
  have 1: "Purge ks c = Some c'"
    using w(1) e by (simp add: Purge_def c'_def)
  have "root < nalloc c"
    using wf by (simp add: wf_cache_def wf_list_def)
  then have "wf_cache c' []"
    by (simp add: wf_cache_def wf_list_def c'_def Init_def)
  with 1 w(2) show ?thesis
    by (intro exI [of _ c']) (simp add: c'_def Init_def)
qed

lemma Keys_loop_wf:
  assumes "wf_cache c (ys @ zs)" "length keys = length ys + length zs" "i = length zs"
  shows "Keys_loop c (if ys = [] then None else Some (last ys)) i keys =
    Some (take i keys @ map (\<lambda>a. Some (key_at c a)) (rev ys))"
  using assms
proof (induction ys arbitrary: zs i keys rule: rev_induct)
  case Nil
  then show ?case by simp
next
  case (snoc y ys)
  from snoc.prems(1) have wf: "wf_cache c (ys @ y # zs)"
    by simp
  then have wl: "wf_list c (ys @ y # zs)"
    by (simp add: wf_cache_def)
  from wf_cache_entry [OF wf, of y] obtain ent where ent: "entry_at c y = Some ent"
    by auto
  have i: "i < length keys"
    using snoc.prems(2,3) by simp
  have "Keys_loop c (Some y) i keys =
      Keys_loop c (if ys = [] then None else Some (last ys)) (Suc i) (keys[i := Some (key ent)])"
    using ent i wf_list_Prev [OF wl] by simp
  also have "\<dots> = Some (take (Suc i) (keys[i := Some (key ent)]) @ map (\<lambda>a. Some (key_at c a)) (rev ys))"
    using snoc.prems(2,3) by (intro snoc.IH [OF wf]) simp_all
  also have "take (Suc i) (keys[i := Some (key ent)]) = take i keys @ [Some (key ent)]"
    using i by (simp add: take_Suc_conv_app_nth)
  finally show ?case
    using ent by (simp add: key_at_def)
qed

lemma Keys_wf:
  assumes sw: "purgeExpired now c0 = Some c" and wf: "wf_cache c xs"
  shows "Keys now c0 = Some (map (\<lambda>e. Some (key e)) (rev (ents c xs)), c)"
proof -
  have b: "Back c = (if xs = [] then None else Some (last xs))"
    using wf wf_list_Back [of c xs] by (simp add: wf_cache_def)
  have "Keys_loop c (Back c) 0 (replicate (card (dom (items c))) None) =
      Some (map (\<lambda>a. Some (key_at c a)) (rev xs))"
    unfolding b using Keys_loop_wf [of c xs "[]" "replicate (length xs) None" 0] wf
    by (simp add: wf_cache_card [OF wf])
  then show ?thesis
    using sw by (simp add: Keys_def ents_def key_at_def rev_map comp_def)
qed

subsection \<open>Reachable states are in good order\<close>

lemma call_wf:
  assumes wf: "wf_cache c xs" and cl: "call x c = Some (r, c')"
  shows "\<exists>xs'. wf_cache c' xs'"
proof -
  have sweep: "\<exists>c1 xs1. purgeExpired now c = Some c1 \<and> wf_cache c1 xs1" for now
    using purgeExpired_wf_ex [OF wf, of now] by blast
  show ?thesis
  proof (cases x)
    case (Add_call now now' k v)
    from sweep [of now] obtain c1 xs1 where s: "purgeExpired now c = Some c1" "wf_cache c1 xs1"
      by blast
    show ?thesis
    proof (cases "items c1 k")
      case None
      from Add_absent [OF s None, of now' v] cl Add_call show ?thesis by auto
    next
      case (Some a)
      from Add_present [OF s(1) Some, of now' v] cl Add_call s(2) show ?thesis by auto
    qed
  next
    case (Update_call now now' k v)
    from sweep [of now] obtain c1 xs1 where s: "purgeExpired now c = Some c1" "wf_cache c1 xs1"
      by blast
    show ?thesis
    proof (cases "items c1 k")
      case None
      from Update_absent [OF s(1) None, of now' v] cl Update_call s(2) show ?thesis by auto
    next
      case (Some a)
      from wf_cache_split [OF s(2) Some] obtain ys zs where xs1: "xs1 = ys @ a # zs"
        by blast
      from Update_present [OF s(1) s(2) [unfolded xs1] Some, of now' v] cl Update_call
      show ?thesis by auto
    qed
  next
    case (Get_call now now' k)
    from sweep [of now] obtain c1 xs1 where s: "purgeExpired now c = Some c1" "wf_cache c1 xs1"
      by blast
    show ?thesis
    proof (cases "items c1 k")
      case None
      from Get_absent [OF s(1) None, of now'] cl Get_call s(2) show ?thesis by auto
    next
      case (Some a)
      from wf_cache_split [OF s(2) Some] obtain ys zs where xs1: "xs1 = ys @ a # zs"
        by blast
      from Get_present [OF s(1) s(2) [unfolded xs1] Some, of now'] cl Get_call
      show ?thesis by auto
    qed
  next
    case (Contains_call now k)
    from sweep [of now] cl Contains_call show ?thesis
      by (auto simp: Contains_def)
  next
    case (Peek_call now k)
    from sweep [of now] cl Peek_call show ?thesis
      by (auto simp: Peek_def split: option.splits Option.bind_splits)
  next
    case (Remove_call now k)
    from sweep [of now] obtain c1 xs1 where s: "purgeExpired now c = Some c1" "wf_cache c1 xs1"
      by blast
    show ?thesis
    proof (cases "items c1 k")
      case None
      from Remove_absent [OF s(1) None] cl Remove_call s(2) show ?thesis by auto
    next
      case (Some a)
      from wf_cache_split [OF s(2) Some] obtain ys zs where xs1: "xs1 = ys @ a # zs"
        by blast
      from Remove_present [OF s(1) s(2) [unfolded xs1] Some] cl Remove_call
      show ?thesis by auto
    qed
  next
    case (Keys_call now)
    from sweep [of now] cl Keys_call show ?thesis
      by (auto simp: Keys_def split: Option.bind_splits)
  next
    case (Len_call now)
    from sweep [of now] cl Len_call show ?thesis
      by (auto simp: Len_def)
  next
    case (Purge_call ks)
    with cl have "range_order ks c"
      by (simp split: if_splits)
    from Purge_wf [OF wf this] cl Purge_call show ?thesis
      by (auto split: if_splits)
  next
    case (PurgeExpired_call now)
    from sweep [of now] cl PurgeExpired_call show ?thesis
      by (auto simp: PurgeExpired_def)
  qed
qed

lemma reachable_wf: "reachable c \<Longrightarrow> \<exists>xs. wf_cache c xs"
proof (induction rule: reachable.induct)
  case (new d cb w)
  show ?case by (rule exI [of _ "[]"]) (rule wf_cache_New)
next
  case (step c x r c')
  then show ?case using call_wf by blast
qed

lemma reachable_run: "reachable c \<Longrightarrow> run xs c = Some (rs, c') \<Longrightarrow> reachable c'"
proof (induction xs arbitrary: c rs)
  case Nil
  then show ?case by simp
next
  case (Cons x xs)
  from Cons.prems(2) obtain r c1 rs' where
    "call x c = Some (r, c1)" "run xs c1 = Some (rs', c')"
    by (auto split: Option.bind_splits)
  with Cons.IH [of c1 rs'] reachable.step [OF Cons.prems(1)] show ?case
    by blast
qed

lemma reachable_state_after: "reachable c \<Longrightarrow> reachable (state_after xs c)"
  using reachable_run [of c xs] by (auto simp: state_after_def split: option.splits)

subsection \<open>The sweep and the calls on reachable states\<close>



lemma call_total:
  assumes r: "reachable c" and ro: "\<forall>ks. x = Purge_call ks \<longrightarrow> range_order ks c"
  shows "\<exists>r c'. call x c = Some (r, c')"
proof -
  from reachable_wf [OF r] obtain xs where wf: "wf_cache c xs" ..
  have sweep: "\<exists>c1 xs1. purgeExpired now c = Some c1 \<and> wf_cache c1 xs1" for now
    using purgeExpired_wf_ex [OF wf, of now] by blast
  show ?thesis
  proof (cases x)
    case (Add_call now now' k v)
    from sweep [of now] obtain c1 xs1 where s: "purgeExpired now c = Some c1" "wf_cache c1 xs1"
      by blast
    show ?thesis
    proof (cases "items c1 k")
      case None
      from Add_absent [OF s None, of now' v] Add_call show ?thesis by auto
    next
      case (Some a)
      from Add_present [OF s(1) Some, of now' v] Add_call show ?thesis by auto
    qed
  next
    case (Update_call now now' k v)
    from sweep [of now] obtain c1 xs1 where s: "purgeExpired now c = Some c1" "wf_cache c1 xs1"
      by blast
    show ?thesis
    proof (cases "items c1 k")
      case None
      from Update_absent [OF s(1) None, of now' v] Update_call show ?thesis by auto
    next
      case (Some a)
      from wf_cache_split [OF s(2) Some] obtain ys zs where xs1: "xs1 = ys @ a # zs"
        by blast
      from Update_present [OF s(1) s(2) [unfolded xs1] Some, of now' v] Update_call
      show ?thesis by auto
    qed
  next
    case (Get_call now now' k)
    from sweep [of now] obtain c1 xs1 where s: "purgeExpired now c = Some c1" "wf_cache c1 xs1"
      by blast
    show ?thesis
    proof (cases "items c1 k")
      case None
      from Get_absent [OF s(1) None, of now'] Get_call show ?thesis by auto
    next
      case (Some a)
      from wf_cache_split [OF s(2) Some] obtain ys zs where xs1: "xs1 = ys @ a # zs"
        by blast
      from Get_present [OF s(1) s(2) [unfolded xs1] Some, of now'] Get_call
      show ?thesis by auto
    qed
  next
    case (Contains_call now k)
    from sweep [of now] Contains_call show ?thesis
      by (auto simp: Contains_def)
  next
    case (Peek_call now k)
    from sweep [of now] obtain c1 xs1 where s: "purgeExpired now c = Some c1" "wf_cache c1 xs1"
      by blast
    show ?thesis
    proof (cases "items c1 k")
      case None
      from Peek_absent [OF s(1) None] Peek_call show ?thesis by auto
    next
      case (Some a)
      from Peek_present [OF s Some] Peek_call show ?thesis by auto
    qed
  next
    case (Remove_call now k)
    from sweep [of now] obtain c1 xs1 where s: "purgeExpired now c = Some c1" "wf_cache c1 xs1"
      by blast
    show ?thesis
    proof (cases "items c1 k")
      case None
      from Remove_absent [OF s(1) None] Remove_call show ?thesis by auto
    next
      case (Some a)
      from wf_cache_split [OF s(2) Some] obtain ys zs where xs1: "xs1 = ys @ a # zs"
        by blast
      from Remove_present [OF s(1) s(2) [unfolded xs1] Some] Remove_call
      show ?thesis by auto
    qed
  next
    case (Keys_call now)
    from sweep [of now] obtain c1 xs1 where s: "purgeExpired now c = Some c1" "wf_cache c1 xs1"
      by blast
    from Keys_wf [OF s] Keys_call show ?thesis by auto
  next
    case (Len_call now)
    from sweep [of now] Len_call show ?thesis
      by (auto simp: Len_def)
  next
    case (Purge_call ks)
    with ro have "range_order ks c" by simp
    from Purge_wf [OF wf this] this Purge_call show ?thesis
      by auto
  next
    case (PurgeExpired_call now)
    from sweep [of now] PurgeExpired_call show ?thesis
      by (auto simp: PurgeExpired_def)
  qed
qed

subsection \<open>What the methods show of the swept cache, and what Purge calls\<close>








subsection \<open>The map and the list in a reachable state\<close>

lemma index_matches_list:
  assumes "reachable c"
  shows "dom (items c) = key ` set (entries c) \<and>
    card (dom (items c)) = length (entries c) \<and>
    distinct (map key (entries c)) \<and>
    length (elements c) = length (entries c) \<and>
    len c = int (length (entries c))"
proof -
  from reachable_wf [OF assms] obtain xs where wf: "wf_cache c xs" ..
  then have "wf_list c xs" by (simp add: wf_cache_def)
  then have "elements c = xs" "len c = int (length xs)"
    by (simp_all add: wf_list_elements wf_list_def)
  moreover have "length (entries c) = length xs"
    by (simp add: wf_cache_entries [OF wf] ents_def)
  ultimately show ?thesis
    using wf_cache_dom [OF wf] wf_cache_card [OF wf] wf_cache_entries [OF wf]
      wf_cache_distinct_keys [OF wf] by simp
qed

subsection \<open>The cache with any key, while Add is given keys equal to themselves\<close>

text \<open>
  On a cache whose map has no entry under \<open>NaN\<close>, every method with any key does what
  the method of the first section does with that key, \<^verbatim>\<open>Add\<close> with a key \<open>Key k\<close>, and
  leaves such a cache.
\<close>

lemma lift_simps [simp]: "cache (lift c) = c" "nan_items (lift c) = []"
  "lift c\<lparr>cache := c'\<rparr> = lift c'"
  by (simp_all add: lift_def)

lemma removeElement_items_None:
  "removeElement e c = Some c' \<Longrightarrow> items c k = None \<Longrightarrow> items c' k = None"
  by (auto simp: removeElement_def Remove_list_def remove_elem_def Let_def
      split: if_splits option.splits Option.bind_splits prod.splits)

lemma Remove_list_items: "Remove_list e c = Some (v, c1) \<Longrightarrow> items c1 = items c"
  by (auto simp: Remove_list_def remove_elem_def Let_def split: if_splits Option.bind_splits)

lemma removeElement_any_lift:
  assumes "items c NaN = None"
  shows "removeElement_any e (lift c) = map_option lift (removeElement e c)"
proof (cases "Remove_list e c")
  case None
  then show ?thesis
    by (simp add: removeElement_any_def removeElement_def)
next
  case (Some p)
  obtain v c1 where p: "p = (v, c1)" by (cases p)
  from Remove_list_items [OF Some [unfolded p]] assms have n: "(items c1)(NaN := None) = items c1"
    by auto
  then have "c1\<lparr>items := (items c1)(NaN := None)\<rparr> = c1"
    by simp
  with Some p show ?thesis
    by (cases "entry_at c1 e"; cases "onEvictCall c1")
      (auto simp: removeElement_any_def removeElement_def items_delete_def lift_def Let_def
        split: gokey.splits)
qed

lemma purgeExpired_loop_Some:
  "purgeExpired_loop now (Some e) c =
     (case entry_at c e of None \<Rightarrow> None
      | Some ent \<Rightarrow> if expired now (duration c) ent then removeElement e c else Some c)"
  by (cases "entry_at c e"; cases "removeElement e c") (simp_all add: removeElement_Prev)

lemma purgeExpired_loop_any_Some:
  "purgeExpired_loop_any now (Some e) g =
     (case entry_at (cache g) e of None \<Rightarrow> None
      | Some ent \<Rightarrow> if expired now (duration (cache g)) ent then removeElement_any e g else Some g)"
  by (cases "entry_at (cache g) e"; cases "removeElement_any e g") (simp_all add: removeElement_any_Prev)

lemma purgeExpired_any_lift:
  assumes "items c NaN = None"
  shows "purgeExpired_any now (lift c) = map_option lift (purgeExpired now c)"
  by (cases "Back c")
    (simp_all add: purgeExpired_any_def purgeExpired_def purgeExpired_loop_Some
      purgeExpired_loop_any_Some removeElement_any_lift [OF assms]
      del: purgeExpired_loop.simps(2) purgeExpired_loop_any.simps(2) split: option.splits)

lemma purgeExpired_items_None:
  "purgeExpired now c = Some c' \<Longrightarrow> items c k = None \<Longrightarrow> items c' k = None"
  by (cases "Back c")
    (auto simp: purgeExpired_def purgeExpired_loop_Some removeElement_items_None
      simp del: purgeExpired_loop.simps(2) split: option.splits if_splits)

lemma PushFront_items: "PushFront v c = Some (e, c1) \<Longrightarrow> items c1 = items c"
  by (auto simp: PushFront_def insertValue_def insert_elem_def lazyInit_def Init_def Let_def
      split: if_splits Option.bind_splits)

lemma MoveToFront_items: "MoveToFront e c = Some c1 \<Longrightarrow> items c1 = items c"
  by (auto simp: MoveToFront_def move_elem_def Let_def split: if_splits Option.bind_splits)

lemma items_index_lift:
  "items c NaN = None \<Longrightarrow> items_index (lift c) k = items c k"
  by (simp add: items_index_def split: gokey.splits)

lemma items_assign_lift:
  "items_assign (Key k) e (lift c) = lift (c\<lparr>items := (items c)(Key k \<mapsto> e)\<rparr>)"
  by (simp add: items_assign_def lift_def)

lemma Add_any_lift:
  assumes "items c NaN = None"
  shows "Add_any now now' (Key k) v (lift c) =
    map_option (\<lambda>(r, c'). (r, lift c')) (Add now now' (Key k) v c)"
proof (cases "purgeExpired now c")
  case None
  then show ?thesis
    by (simp add: Add_any_def Add_def purgeExpired_any_lift [OF assms])
next
  case (Some c1)
  from purgeExpired_items_None [OF Some assms] have n: "items c1 NaN = None" .
  show ?thesis
    by (cases "items c1 (Key k)";
        cases "PushFront (EntryPtr (Some \<lparr>tm = now', key = Key k, val = v\<rparr>)) c1")
      (auto simp: Add_any_def Add_def purgeExpired_any_lift [OF assms] Some
        items_index_lift [OF n] items_assign_lift)
qed

lemma Add_items_None:
  "Add now now' k v c = Some (r, c') \<Longrightarrow> items c k' = None \<Longrightarrow> k \<noteq> k' \<Longrightarrow> items c' k' = None"
  by (auto simp: Add_def purgeExpired_items_None dest!: PushFront_items
      split: option.splits Option.bind_splits)

lemma Update_any_lift:
  assumes "items c NaN = None"
  shows "Update_any now now' k v (lift c) =
    map_option (\<lambda>(r, c'). (r, lift c')) (Update now now' k v c)"
proof (cases "purgeExpired now c")
  case None
  then show ?thesis
    by (simp add: Update_any_def Update_def purgeExpired_any_lift [OF assms])
next
  case (Some c1)
  from purgeExpired_items_None [OF Some assms] have n: "items c1 NaN = None" .
  show ?thesis
    by (auto simp: Update_any_def Update_def purgeExpired_any_lift [OF assms] Some
        items_index_lift [OF n] Let_def split: option.splits Option.bind_splits)
qed

lemma Update_items_None:
  "Update now now' k v c = Some (r, c') \<Longrightarrow> items c k' = None \<Longrightarrow> items c' k' = None"
  by (auto simp: Update_def purgeExpired_items_None Let_def dest!: MoveToFront_items
      split: option.splits Option.bind_splits)

lemma Get_any_lift:
  assumes "items c NaN = None"
  shows "Get_any now now' k (lift c) =
    map_option (\<lambda>(r, c'). (r, lift c')) (Get now now' k c)"
proof (cases "purgeExpired now c")
  case None
  then show ?thesis
    by (simp add: Get_any_def Get_def purgeExpired_any_lift [OF assms])
next
  case (Some c1)
  from purgeExpired_items_None [OF Some assms] have n: "items c1 NaN = None" .
  show ?thesis
    by (auto simp: Get_any_def Get_def purgeExpired_any_lift [OF assms] Some
        items_index_lift [OF n] Let_def split: option.splits Option.bind_splits iface.splits)
qed

lemma Get_items_None:
  "Get now now' k c = Some (r, c') \<Longrightarrow> items c k' = None \<Longrightarrow> items c' k' = None"
  by (auto simp: Get_def purgeExpired_items_None Let_def dest!: MoveToFront_items
      split: option.splits Option.bind_splits iface.splits)

lemma Contains_any_lift:
  assumes "items c NaN = None"
  shows "Contains_any now k (lift c) =
    map_option (\<lambda>(r, c'). (r, lift c')) (Contains now k c)"
proof (cases "purgeExpired now c")
  case None
  then show ?thesis
    by (simp add: Contains_any_def Contains_def purgeExpired_any_lift [OF assms])
next
  case (Some c1)
  from purgeExpired_items_None [OF Some assms] have n: "items c1 NaN = None" .
  show ?thesis
    by (simp add: Contains_any_def Contains_def purgeExpired_any_lift [OF assms] Some
        items_index_lift [OF n])
qed

lemma Peek_any_lift:
  assumes "items c NaN = None"
  shows "Peek_any now k (lift c) =
    map_option (\<lambda>(r, c'). (r, lift c')) (Peek now k c)"
proof (cases "purgeExpired now c")
  case None
  then show ?thesis
    by (simp add: Peek_any_def Peek_def purgeExpired_any_lift [OF assms])
next
  case (Some c1)
  from purgeExpired_items_None [OF Some assms] have n: "items c1 NaN = None" .
  show ?thesis
    by (auto simp: Peek_any_def Peek_def purgeExpired_any_lift [OF assms] Some
        items_index_lift [OF n] split: option.splits Option.bind_splits)
qed

lemma Remove_any_lift:
  assumes "items c NaN = None"
  shows "Remove_any now k (lift c) =
    map_option (\<lambda>(r, c'). (r, lift c')) (Remove now k c)"
proof (cases "purgeExpired now c")
  case None
  then show ?thesis
    by (simp add: Remove_any_def Remove_def purgeExpired_any_lift [OF assms])
next
  case (Some c1)
  from purgeExpired_items_None [OF Some assms] have n: "items c1 NaN = None" .
  show ?thesis
    by (auto simp: Remove_any_def Remove_def purgeExpired_any_lift [OF assms] Some
        items_index_lift [OF n] removeElement_any_lift [OF n]
        split: option.splits Option.bind_splits)
qed

lemma Remove_items_None:
  "Remove now k c = Some (r, c') \<Longrightarrow> items c k' = None \<Longrightarrow> items c' k' = None"
  by (auto simp: Remove_def purgeExpired_items_None removeElement_items_None
      split: option.splits Option.bind_splits)

lemma items_len_lift: "items c NaN = None \<Longrightarrow> items_len (lift c) = card (dom (items c))"
  by (simp add: items_len_def domIff)

lemma Keys_any_lift:
  assumes "items c NaN = None"
  shows "Keys_any now (lift c) =
    map_option (\<lambda>(r, c'). (r, lift c')) (Keys now c)"
proof (cases "purgeExpired now c")
  case None
  then show ?thesis
    by (simp add: Keys_any_def Keys_def purgeExpired_any_lift [OF assms])
next
  case (Some c1)
  from purgeExpired_items_None [OF Some assms] have n: "items c1 NaN = None" .
  show ?thesis
    by (auto simp: Keys_any_def Keys_def purgeExpired_any_lift [OF assms] Some
        items_len_lift [OF n] split: option.splits Option.bind_splits)
qed

lemma Len_any_lift:
  assumes "items c NaN = None"
  shows "Len_any now (lift c) =
    map_option (\<lambda>(r, c'). (r, lift c')) (Len now c)"
  by (cases "purgeExpired now c")
    (simp_all add: Len_any_def Len_def purgeExpired_any_lift [OF assms])

lemma items_delete_lift:
  "items_delete (Key k) (lift c) = lift (c\<lparr>items := (items c)(Key k := None)\<rparr>)"
  by (simp add: items_delete_def lift_def)

lemma Purge_loop_any_lift:
  "Purge_loop_any (map Keyed ks) (lift c) = map_option lift (Purge_loop (map Key ks) c)"
proof (induction ks arbitrary: c)
  case Nil
  show ?case by simp
next
  case (Cons k ks)
  show ?case
  proof (cases "items c (Key k)")
    case None
    with Cons.IH [of c] show ?thesis by simp
  next
    case (Some a)
    show ?thesis
    proof (cases "onEvictCall c")
      case None
      with Some Cons.IH [of "c\<lparr>items := (items c)(Key k := None)\<rparr>"] show ?thesis
        by (simp add: items_delete_lift)
    next
      case f: (Some f)
      show ?thesis
      proof (cases "entry_at c a")
        case None
        with Some f show ?thesis by simp
      next
        case (Some ent)
        have "lift c\<lparr>cache := c\<lparr>world := f (Key k) (val ent) (world c)\<rparr>\<rparr> =
            lift (c\<lparr>world := f (Key k) (val ent) (world c)\<rparr>)"
          by simp
        with Some f \<open>items c (Key k) = Some a\<close>
          Cons.IH [of "c\<lparr>world := f (Key k) (val ent) (world c), items := (items c)(Key k := None)\<rparr>"]
        show ?thesis
          by (simp add: items_delete_lift)
      qed
    qed
  qed
qed

lemma range_order_any_lift:
  assumes ro: "range_order_any vs (lift c)" and n: "items c NaN = None"
  shows "\<exists>ks. vs = map Keyed ks \<and> range_order (map Key ks) c"
proof -
  from ro have d: "distinct vs" and s: "set vs = Keyed ` {k. items c (Key k) \<noteq> None}"
    by (simp_all add: range_order_any_def)
  define un :: "'a visit \<Rightarrow> 'a" where "un = (\<lambda>v. case v of Keyed k \<Rightarrow> k | Unkeyed i \<Rightarrow> undefined)"
  have 1: "vs = map Keyed (map un vs)"
    using s by (auto simp: un_def map_idI intro!: map_idI [symmetric])
  have "inj_on (\<lambda>v. Key (un v)) (set vs)"
    using s by (auto simp: inj_on_def un_def)
  with d have 2: "distinct (map Key (map un vs))"
    by (simp add: distinct_map comp_def)
  have "Key ` un ` set vs = dom (items c)"
  proof (intro set_eqI iffI)
    fix x assume "x \<in> Key ` un ` set vs"
    with s show "x \<in> dom (items c)"
      by (auto simp: un_def)
  next
    fix x assume x: "x \<in> dom (items c)"
    with n obtain k where k: "x = Key k"
      by (cases x) auto
    with x have "Keyed k \<in> set vs"
      using s by auto
    then have "Key (un (Keyed k)) \<in> Key ` un ` set vs"
      by blast
    with k show "x \<in> Key ` un ` set vs"
      by (simp add: un_def)
  qed
  with 2 have "range_order (map Key (map un vs)) c"
    by (simp add: range_order_def image_image)
  with 1 show ?thesis
    by blast
qed

lemma Purge_loop_items_None:
  "Purge_loop ks c = Some c' \<Longrightarrow> items c k = None \<Longrightarrow> items c' k = None"
proof (induction ks arbitrary: c)
  case Nil
  then show ?case by simp
next
  case (Cons a ks)
  then show ?case
    by (auto split: option.splits Option.bind_splits if_splits)
qed

lemma Purge_items_None:
  "Purge ks c = Some c' \<Longrightarrow> items c k = None \<Longrightarrow> items c' k = None"
  by (auto simp: Purge_def Init_def dest: Purge_loop_items_None split: Option.bind_splits)

lemma Purge_any_lift:
  "Purge_any (map Keyed ks) (lift c) = map_option lift (Purge (map Key ks) c)"
  by (cases "Purge_loop (map Key ks) c") (simp_all add: Purge_any_def Purge_def Purge_loop_any_lift)

lemma call_any_lift:
  assumes r: "reachable c" and n: "items c NaN = None" and a: "\<not> adds_NaN x"
    and cl: "call_any x (lift c) = Some (r', g)"
  shows "\<exists>c'. g = lift c' \<and> reachable c' \<and> items c' NaN = None"
proof (cases x)
  case (Add_any_call now now' k v)
  with a obtain k' where k: "k = Key k'"
    by (cases k) auto
  from cl Add_any_call k Add_any_lift [OF n, of now now' k' v] obtain b c' where
    s: "Add now now' (Key k') v c = Some (b, c')" "g = lift c'"
    by auto
  then have "call (Add_call now now' (Key k') v) c = Some (Bool_ret b, c')"
    by simp
  from reachable.step [OF r this] s Add_items_None [OF s(1) n] show ?thesis
    by auto
next
  case (Update_any_call now now' k v)
  from cl Update_any_call Update_any_lift [OF n, of now now' k v] obtain b c' where
    s: "Update now now' k v c = Some (b, c')" "g = lift c'"
    by auto
  then have "call (Update_call now now' k v) c = Some (Bool_ret b, c')"
    by simp
  from reachable.step [OF r this] s Update_items_None [OF s(1) n] show ?thesis
    by auto
next
  case (Get_any_call now now' k)
  from cl Get_any_call Get_any_lift [OF n, of now now' k] obtain v ok c' where
    s: "Get now now' k c = Some ((v, ok), c')" "g = lift c'"
    by auto
  then have "call (Get_call now now' k) c = Some (Val_ret v ok, c')"
    by simp
  from reachable.step [OF r this] s Get_items_None [OF s(1) n] show ?thesis
    by auto
next
  case (Contains_any_call now k)
  from cl Contains_any_call Contains_any_lift [OF n, of now k] obtain b c' where
    s: "Contains now k c = Some (b, c')" "g = lift c'"
    by auto
  then have cl': "call (Contains_call now k) c = Some (Bool_ret b, c')"
    by simp
  from s(1) n have "items c' NaN = None"
    by (auto simp: Contains_def purgeExpired_items_None split: Option.bind_splits)
  with reachable.step [OF r cl'] s(2) show ?thesis
    by auto
next
  case (Peek_any_call now k)
  from cl Peek_any_call Peek_any_lift [OF n, of now k] obtain v ok c' where
    s: "Peek now k c = Some ((v, ok), c')" "g = lift c'"
    by auto
  then have cl': "call (Peek_call now k) c = Some (Val_ret v ok, c')"
    by simp
  from s(1) n have "items c' NaN = None"
    by (auto simp: Peek_def purgeExpired_items_None split: Option.bind_splits option.splits)
  with reachable.step [OF r cl'] s(2) show ?thesis
    by auto
next
  case (Remove_any_call now k)
  from cl Remove_any_call Remove_any_lift [OF n, of now k] obtain b c' where
    s: "Remove now k c = Some (b, c')" "g = lift c'"
    by auto
  then have "call (Remove_call now k) c = Some (Bool_ret b, c')"
    by simp
  from reachable.step [OF r this] s Remove_items_None [OF s(1) n] show ?thesis
    by auto
next
  case (Keys_any_call now)
  from cl Keys_any_call Keys_any_lift [OF n, of now] obtain ks c' where
    s: "Keys now c = Some (ks, c')" "g = lift c'"
    by auto
  then have cl': "call (Keys_call now) c = Some (Keys_ret ks, c')"
    by simp
  from s(1) n have "items c' NaN = None"
    by (auto simp: Keys_def purgeExpired_items_None split: Option.bind_splits)
  with reachable.step [OF r cl'] s(2) show ?thesis
    by auto
next
  case (Len_any_call now)
  from cl Len_any_call Len_any_lift [OF n, of now] obtain m c' where
    s: "Len now c = Some (m, c')" "g = lift c'"
    by auto
  then have cl': "call (Len_call now) c = Some (Len_ret m, c')"
    by simp
  from s(1) n have "items c' NaN = None"
    by (auto simp: Len_def purgeExpired_items_None split: Option.bind_splits)
  with reachable.step [OF r cl'] s(2) show ?thesis
    by auto
next
  case (Purge_any_call vs)
  with cl have ro: "range_order_any vs (lift c)" and p: "Purge_any vs (lift c) = Some g"
    by (auto split: if_splits)
  from range_order_any_lift [OF ro n] obtain ks where
    ks: "vs = map Keyed ks" "range_order (map Key ks) c"
    by blast
  from p ks(1) Purge_any_lift [of ks c] obtain c' where
    s: "Purge (map Key ks) c = Some c'" "g = lift c'"
    by auto
  with ks(2) have "call (Purge_call (map Key ks)) c = Some (No_ret, c')"
    by simp
  from reachable.step [OF r this] s Purge_items_None [OF s(1) n] show ?thesis
    by auto
next
  case (PurgeExpired_any_call now)
  from cl PurgeExpired_any_call purgeExpired_any_lift [OF n, of now] obtain c' where
    s: "purgeExpired now c = Some c'" "g = lift c'"
    by (auto simp: PurgeExpired_any_def)
  then have "call (PurgeExpired_call now) c = Some (No_ret, c')"
    by (simp add: PurgeExpired_def)
  from reachable.step [OF r this] s purgeExpired_items_None [OF s(1) n] show ?thesis
    by auto
qed

lemma run_any_lift:
  assumes "reachable c" "items c NaN = None" "\<forall>x\<in>set xs. \<not> adds_NaN x"
    "run_any xs (lift c) = Some (rs, g)"
  shows "\<exists>c'. g = lift c' \<and> reachable c' \<and> items c' NaN = None"
  using assms
proof (induction xs arbitrary: c rs)
  case Nil
  then show ?case by auto
next
  case (Cons x xs)
  from Cons.prems(4) obtain r g1 rs1 where
    s: "call_any x (lift c) = Some (r, g1)" "run_any xs g1 = Some (rs1, g)"
    by (auto split: Option.bind_splits)
  from Cons.prems(3) have a: "\<not> adds_NaN x" "\<forall>x\<in>set xs. \<not> adds_NaN x"
    by simp_all
  from call_any_lift [OF Cons.prems(1,2) a(1) s(1)] obtain c1 where
    c1: "g1 = lift c1" "reachable c1" "items c1 NaN = None"
    by blast
  from Cons.IH [OF c1(2,3) a(2) s(2) [unfolded c1(1)]] show ?case .
qed

lemmas run_any_simps =
  map_after_def list_after_def NewTimedCache_any_def Add_any_def Update_any_def Get_any_def
  Contains_any_def Peek_any_def Remove_any_def Keys_any_def Len_any_def Purge_any_def
  range_order_any_def purgeExpired_any_def PurgeExpired_any_def removeElement_any_def
  items_index_def items_assign_def items_delete_def items_keys_def items_len_def

section \<open>The claims\<close>

text \<open>
  C1 (the code departs from the claim). The claim: the sweep removes every entry whose
  age exceeds \<open>duration\<close>; with duration 4 and entries added at t = 0, 2, 4, 6, a
  sweep at t = 10 removes the entries of ages 10, 8 and 6 and leaves one entry.
  The code on that scenario: the sweep inside the \<^verbatim>\<open>Add\<close> at t = 6 has already removed
  key 1 (age 6), and \<^verbatim>\<open>PurgeExpired\<close> at t = 10 removes key 2 alone. Key 3, whose age 6
  exceeds the duration, stays in the recency list and in the map, and the callback
  has run for keys 1 and 2 only. The loop of \<^verbatim>\<open>purgeExpired\<close> steps with \<^verbatim>\<open>e.Prev()\<close> from
  the element it has just removed, whose \<^verbatim>\<open>list\<close> field \<^verbatim>\<open>Remove\<close> has set to nil, so the
  loop ends after its first removal.
\<close>

theorem C1_sweep_leaves_expired_entry:
  "entries_after
     [Add_call 0 0 (1::nat) ''a'', Add_call 2 2 2 ''b'', Add_call 4 4 3 ''c'',
      Add_call 6 6 4 ''d'', PurgeExpired_call 10]
     (NewTimedCache 4 record_evictions [])
   = Some [\<lparr>tm = 6, key = 4, val = ''d''\<rparr>, \<lparr>tm = 4, key = 3, val = ''c''\<rparr>]
   \<and> expired 10 4 \<lparr>tm = 4, key = 3::nat, val = ''c''\<rparr>
   \<and> items_after
     [Add_call 0 0 (1::nat) ''a'', Add_call 2 2 2 ''b'', Add_call 4 4 3 ''c'',
      Add_call 6 6 4 ''d'', PurgeExpired_call 10]
     (NewTimedCache 4 record_evictions [])
   = Some {4, 3}
   \<and> world_after
     [Add_call 0 0 (1::nat) ''a'', Add_call 2 2 2 ''b'', Add_call 4 4 3 ''c'',
      Add_call 6 6 4 ''d'', PurgeExpired_call 10]
     (NewTimedCache 4 record_evictions [])
   = Some [(1, ''a''), (2, ''b'')]"
  by (simp add: run_simps)




text \<open>
  C3 (the code departs from the claim). The claim: calling \<^verbatim>\<open>PurgeExpired\<close> twice in
  succession, at the same time and with nothing in between, leaves the contents the
  first call left. The code, with duration 4 and keys 1 and 2 added at t = 0 and t = 2:
  the first \<^verbatim>\<open>PurgeExpired\<close> at t = 10 leaves key 2, the second removes it.
\<close>

theorem C3_second_sweep_removes_more:
  "entries_after
     [Add_call 0 0 (1::nat) ''a'', Add_call 2 2 2 ''b'', PurgeExpired_call 10]
     (NewTimedCache 4 record_evictions [])
   = Some [\<lparr>tm = 2, key = 2, val = ''b''\<rparr>]
   \<and> entries_after
     [Add_call 0 0 (1::nat) ''a'', Add_call 2 2 2 ''b'', PurgeExpired_call 10, PurgeExpired_call 10]
     (NewTimedCache 4 record_evictions [])
   = Some []"
  by (simp add: run_simps)

text \<open>
  C4 (the code departs from the claim). The claim: an entry whose age equals
  \<open>duration\<close> is kept by the sweep, and an entry whose age is greater is purged on
  the next sweep. The second half fails in the code: with duration 4 and keys 1, 2, 3
  added at t = 0, 1, 2, the sweep at t = 10 removes key 1 and keeps keys 2 and 3, whose
  ages 9 and 8 exceed the duration; \<^verbatim>\<open>Peek\<close> at t = 10 (after its own sweep, which
  removes key 2) still returns the value of key 3. The same shows in the calls of the
  program's own \<^verbatim>\<open>main\<close> (duration 4, keys 1 to 4 added at t = 0, 2, 4, 6, then
  \<^verbatim>\<open>Get(3)\<close> at t = 10): \<^verbatim>\<open>Get\<close> finds key 3, whose age is 6.
\<close>

theorem C4_older_than_duration_not_purged:
  "entries_after
     [Add_call 0 0 (1::nat) ''a'', Add_call 1 1 2 ''b'', Add_call 2 2 3 ''c'', PurgeExpired_call 10]
     (NewTimedCache 4 record_evictions [])
   = Some [\<lparr>tm = 2, key = 3, val = ''c''\<rparr>, \<lparr>tm = 1, key = 2, val = ''b''\<rparr>]
   \<and> expired 10 4 \<lparr>tm = 2, key = 3::nat, val = ''c''\<rparr>
   \<and> expired 10 4 \<lparr>tm = 1, key = 2::nat, val = ''b''\<rparr>
   \<and> rets_after
     [Add_call 0 0 (1::nat) ''a'', Add_call 1 1 2 ''b'', Add_call 2 2 3 ''c'', PurgeExpired_call 10,
      Peek_call 10 3]
     (NewTimedCache 4 record_evictions [])
   = Some [Bool_ret True, Bool_ret True, Bool_ret True, No_ret, Val_ret (Some ''c'') True]
   \<and> rets_after
     [Add_call 0 0 (1::nat) ''a'', Add_call 2 2 2 ''b'', Add_call 4 4 3 ''c'', Add_call 6 6 4 ''d'',
      Get_call 10 10 3]
     (NewTimedCache 4 record_evictions [])
   = Some [Bool_ret True, Bool_ret True, Bool_ret True, Bool_ret True, Val_ret (Some ''c'') True]"
  by (simp add: run_simps)

text \<open>
  C5 (amended). The claim: after every public operation, for all sequences of calls,
  the keys of the map \<^verbatim>\<open>items\<close> are the keys of the entries in \<^verbatim>\<open>evictList\<close>, and the two
  have as many members. The map takes a key that is not equal to itself and never
  finds it again. \<^verbatim>\<open>Add\<close> twice with such a key, at t = 0 in a cache of duration 4:
  the list has two entries and the map two, under that key. Two sweeps at t = 10
  remove both entries from the list, one each; \<^verbatim>\<open>delete\<close> finds neither in the map, which
  keeps its two entries: the list is empty and \<^verbatim>\<open>len(c.items)\<close> is 2.
\<close>

theorem C5_NaN_key_stays_in_map:
  "list_after [Add_any_call 0 0 NaN ''a'', Add_any_call 0 0 NaN ''b'']
       (NewTimedCache_any 4 None ())
     = Some ([\<lparr>tm = 0, key = NaN :: nat gokey, val = ''b''\<rparr>, \<lparr>tm = 0, key = NaN, val = ''a''\<rparr>], 2)
   \<and> map_after [Add_any_call 0 0 NaN ''a'', Add_any_call 0 0 NaN ''b'']
       (NewTimedCache_any 4 None ())
     = Some ({NaN :: nat gokey}, 2)
   \<and> list_after [Add_any_call 0 0 NaN ''a'', Add_any_call 0 0 NaN ''b'', PurgeExpired_any_call 10,
         PurgeExpired_any_call 10] (NewTimedCache_any 4 None ())
     = Some ([] :: (nat gokey, string) entry list, 0)
   \<and> map_after [Add_any_call 0 0 NaN ''a'', Add_any_call 0 0 NaN ''b'', PurgeExpired_any_call 10,
         PurgeExpired_any_call 10] (NewTimedCache_any 4 None ())
     = Some ({NaN :: nat gokey}, 2)"
  by (simp add: run_simps run_any_simps)

text \<open>
  C5, as amended: after every sequence of calls of the public methods on a new cache
  in which \<^verbatim>\<open>Add\<close> is not given a key that is not equal to itself (the other methods
  are given any key), the keys of the map \<^verbatim>\<open>items\<close> are the keys of the entries in
  \<^verbatim>\<open>evictList\<close>, the map has as many entries as the list, no two entries of the list
  share a key, every element holds an entry, and the list's \<^verbatim>\<open>len\<close> field is their
  number.
\<close>

theorem C5_index_matches_list:
  assumes "run_any xs (NewTimedCache_any d cb w) = Some (rs, g)"
    and "\<forall>x\<in>set xs. \<not> adds_NaN x"
  shows "items_keys g = key ` set (entries (cache g)) \<and>
    items_len g = length (entries (cache g)) \<and>
    distinct (map key (entries (cache g))) \<and>
    length (elements (cache g)) = length (entries (cache g)) \<and>
    len (cache g) = int (length (entries (cache g)))"
proof -
  have 0: "NewTimedCache_any d cb w = lift (NewTimedCache d cb w)"
    "items (NewTimedCache d cb w) NaN = None"
    by (simp_all add: NewTimedCache_any_def lift_def NewTimedCache_def Init_def)
  from run_any_lift [OF reachable.new 0(2) assms(2) assms(1) [unfolded 0(1)]] obtain c where
    c: "g = lift c" "reachable c" "items c NaN = None"
    by blast
  have k: "items_keys (lift c) = dom (items c)"
    using c(3) by (auto simp: items_keys_def)
  have l: "items_len (lift c) = card (dom (items c))"
    by (rule items_len_lift [OF c(3)])
  from index_matches_list [OF c(2)] show ?thesis
    unfolding c(1) k l lift_simps by (elim conjE) (intro conjI; assumption)
qed

text \<open>
  C5, as amended, on keys 1 and 2 added at t = 0 and t = 2, a \<^verbatim>\<open>Get\<close> and a \<^verbatim>\<open>Remove\<close> of
  a key not equal to itself at t = 3, and a sweep at t = 5, which removes key 1.
\<close>

theorem C5_index_matches_list_witness:
  "\<not> adds_NaN (Add_any_call 0 0 (Key (1::nat)) ''a'') \<and> \<not> adds_NaN (Add_any_call 2 2 (Key (2::nat)) ''b'')
   \<and> \<not> adds_NaN (Get_any_call 3 3 (NaN :: nat gokey) :: (nat, string) method_call_any)
   \<and> (\<exists>rs g. run_any [Add_any_call 0 0 (Key (1::nat)) ''a'', Add_any_call 2 2 (Key 2) ''b'',
                 Get_any_call 3 3 NaN, Remove_any_call 3 NaN, PurgeExpired_any_call 5]
               (NewTimedCache_any 4 None ()) = Some (rs, g)
        \<and> items_keys g = key ` set (entries (cache g))
        \<and> items_len g = length (entries (cache g))
        \<and> distinct (map key (entries (cache g)))
        \<and> len (cache g) = int (length (entries (cache g))))
   \<and> map_after [Add_any_call 0 0 (Key (1::nat)) ''a'', Add_any_call 2 2 (Key 2) ''b'',
         Get_any_call 3 3 NaN, Remove_any_call 3 NaN, PurgeExpired_any_call 5]
        (NewTimedCache_any 4 None ()) = Some ({Key 2}, 1)
   \<and> list_after [Add_any_call 0 0 (Key (1::nat)) ''a'', Add_any_call 2 2 (Key 2) ''b'',
         Get_any_call 3 3 NaN, Remove_any_call 3 NaN, PurgeExpired_any_call 5]
        (NewTimedCache_any 4 None ()) = Some ([\<lparr>tm = 2, key = Key 2, val = ''b''\<rparr>], 1)"
proof -
  define xs :: "(nat, string) method_call_any list" where
    "xs = [Add_any_call 0 0 (Key 1) ''a'', Add_any_call 2 2 (Key 2) ''b'',
           Get_any_call 3 3 NaN, Remove_any_call 3 NaN, PurgeExpired_any_call 5]"
  define g0 :: "(nat, string, unit) TimedCache_any" where "g0 = NewTimedCache_any 4 None ()"
  have a: "\<forall>x\<in>set xs. \<not> adds_NaN x"
    by (simp add: xs_def)
  have e: "map_after xs g0 = Some ({Key 2}, 1)"
    "list_after xs g0 = Some ([\<lparr>tm = 2, key = Key 2, val = ''b''\<rparr>], 1)"
    by (simp_all add: xs_def g0_def run_simps run_any_simps)
  then obtain rs g where r: "run_any xs g0 = Some (rs, g)"
    by (auto simp: map_after_def)
  from C5_index_matches_list [OF r [unfolded g0_def] a] r
  have "\<exists>rs g. run_any xs g0 = Some (rs, g)
        \<and> items_keys g = key ` set (entries (cache g))
        \<and> items_len g = length (entries (cache g))
        \<and> distinct (map key (entries (cache g)))
        \<and> len (cache g) = int (length (entries (cache g)))"
    by (intro exI [of _ rs] exI [of _ g]) simp
  with e show ?thesis
    unfolding xs_def g0_def by simp
qed

text \<open>
  C6. \<^verbatim>\<open>Add(key, value)\<close> on a reachable cache: the sweep returns a cache \<open>c1\<close>. If the key
  is absent from \<open>c1\<close>, \<^verbatim>\<open>Add\<close> returns true and leaves the recency list of \<open>c1\<close> with a new
  entry in front, stamped with the clock reading \<^verbatim>\<open>Add\<close> takes for it, and the map sends
  the key to that front element. If the key is present in \<open>c1\<close>, \<^verbatim>\<open>Add\<close> returns false
  and leaves \<open>c1\<close> as it is.
\<close>

theorem C6_Add:
  assumes "reachable c"
  shows "\<exists>c1. purgeExpired now c = Some c1 \<and>
    (items c1 k = None \<longrightarrow>
      (\<exists>c'. Add now now' k v c = Some (True, c') \<and>
        entries c' = \<lparr>tm = now', key = k, val = v\<rparr> # entries c1 \<and>
        items c' = (items c1)(k \<mapsto> hd (elements c')) \<and>
        world c' = world c1)) \<and>
    (items c1 k \<noteq> None \<longrightarrow> Add now now' k v c = Some (False, c1))"
proof -
  from reachable_wf [OF assms] obtain xs where "wf_cache c xs" ..
  from purgeExpired_wf_ex [OF this, of now] obtain c1 xs1 where
    s: "purgeExpired now c = Some c1" "wf_cache c1 xs1"
    by blast
  have A: "items c1 k = None \<longrightarrow>
      (\<exists>c'. Add now now' k v c = Some (True, c') \<and>
        entries c' = \<lparr>tm = now', key = k, val = v\<rparr> # entries c1 \<and>
        items c' = (items c1)(k \<mapsto> hd (elements c')) \<and>
        world c' = world c1)"
  proof
    assume absent: "items c1 k = None"
    from Add_absent [OF s absent, of now' v] obtain c' where
      a: "Add now now' k v c = Some (True, c')" "wf_cache c' (nalloc c1 # xs1)"
        "ents c' (nalloc c1 # xs1) = \<lparr>tm = now', key = k, val = v\<rparr> # ents c1 xs1"
        "items c' = (items c1)(k \<mapsto> nalloc c1)" "world c' = world c1"
      by blast
    from a(2) have "elements c' = nalloc c1 # xs1"
      by (simp add: wf_cache_def wf_list_elements)
    with a wf_cache_entries [OF a(2)] wf_cache_entries [OF s(2)]
    show "\<exists>c'. Add now now' k v c = Some (True, c') \<and>
        entries c' = \<lparr>tm = now', key = k, val = v\<rparr> # entries c1 \<and>
        items c' = (items c1)(k \<mapsto> hd (elements c')) \<and>
        world c' = world c1"
      by (intro exI [of _ c']) simp
  qed
  have B: "items c1 k \<noteq> None \<longrightarrow> Add now now' k v c = Some (False, c1)"
    using Add_present [OF s(1)] by auto
  show ?thesis
    by (rule exI [of _ c1]) (intro conjI s(1) A B)
qed

text \<open>C6 on the cache with keys 1 and 2: adding key 3, then key 2 again, at t = 3.\<close>

theorem C6_Add_witness:
  "(\<exists>c1. purgeExpired 3 two_entries = Some c1 \<and>
    (items c1 3 = None \<longrightarrow>
      (\<exists>c'. Add 3 3 3 ''c'' two_entries = Some (True, c') \<and>
        entries c' = \<lparr>tm = 3, key = 3, val = ''c''\<rparr> # entries c1 \<and>
        items c' = (items c1)(3 \<mapsto> hd (elements c')) \<and>
        world c' = world c1)) \<and>
    (items c1 3 \<noteq> None \<longrightarrow> Add 3 3 3 ''c'' two_entries = Some (False, c1)))
   \<and> reachable two_entries
   \<and> rets_after [Add_call 3 3 3 ''c'', Add_call 3 3 2 ''z''] two_entries
       = Some [Bool_ret True, Bool_ret False]
   \<and> entries_after [Add_call 3 3 3 ''c'', Add_call 3 3 2 ''z''] two_entries
       = Some [\<lparr>tm = 3, key = 3, val = ''c''\<rparr>, \<lparr>tm = 2, key = 2, val = ''b''\<rparr>,
               \<lparr>tm = 0, key = 1, val = ''a''\<rparr>]"
proof -
  have r: "reachable two_entries"
    unfolding two_entries_def by (rule reachable_state_after [OF reachable.new])
  have e: "rets_after [Add_call 3 3 3 ''c'', Add_call 3 3 2 ''z''] two_entries
       = Some [Bool_ret True, Bool_ret False]"
    "entries_after [Add_call 3 3 3 ''c'', Add_call 3 3 2 ''z''] two_entries
       = Some [\<lparr>tm = 3, key = 3, val = ''c''\<rparr>, \<lparr>tm = 2, key = 2, val = ''b''\<rparr>,
               \<lparr>tm = 0, key = 1, val = ''a''\<rparr>]"
    by (simp_all add: two_entries_def run_simps)
  from C6_Add [OF r, of 3 3 3 "''c''"] r e show ?thesis
    by (intro conjI)
qed

text \<open>
  C7. \<^verbatim>\<open>Update(key, value)\<close> on a reachable cache: the sweep returns a cache \<open>c1\<close>. If the
  key is in the map of \<open>c1\<close>, its entry \<open>ent\<close> is in the recency list, and \<^verbatim>\<open>Update\<close> returns
  true and leaves that list with \<open>ent\<close> taken out and put in front with the new value
  and the clock reading \<^verbatim>\<open>Update\<close> takes for it; the map is unchanged. If the key is
  absent, \<^verbatim>\<open>Update\<close> returns false and leaves \<open>c1\<close> as it is.
\<close>

theorem C7_Update:
  assumes "reachable c"
  shows "\<exists>c1. purgeExpired now c = Some c1 \<and>
    (items c1 k \<noteq> None \<longrightarrow>
      (\<exists>c' ent es1 es2. Update now now' k v c = Some (True, c') \<and>
        entries c1 = es1 @ ent # es2 \<and> key ent = k \<and>
        entries c' = ent\<lparr>val := v, tm := now'\<rparr> # es1 @ es2 \<and>
        items c' = items c1 \<and> world c' = world c1)) \<and>
    (items c1 k = None \<longrightarrow> Update now now' k v c = Some (False, c1))"
proof -
  from reachable_wf [OF assms] obtain xs where "wf_cache c xs" ..
  from purgeExpired_wf_ex [OF this, of now] obtain c1 xs1 where
    s: "purgeExpired now c = Some c1" "wf_cache c1 xs1"
    by blast
  have A: "items c1 k \<noteq> None \<longrightarrow>
      (\<exists>c' ent es1 es2. Update now now' k v c = Some (True, c') \<and>
        entries c1 = es1 @ ent # es2 \<and> key ent = k \<and>
        entries c' = ent\<lparr>val := v, tm := now'\<rparr> # es1 @ es2 \<and>
        items c' = items c1 \<and> world c' = world c1)"
  proof
    assume "items c1 k \<noteq> None"
    then obtain a where a: "items c1 k = Some a" by auto
    from wf_cache_split [OF s(2) a] obtain ys zs ent0 where
      xs1: "xs1 = ys @ a # zs" and ent0: "entry_at c1 a = Some ent0" "key ent0 = k"
      by blast
    from Update_present [OF s(1) s(2) [unfolded xs1] a, of now' v] ent0 obtain c' where
      u: "Update now now' k v c = Some (True, c')" "wf_cache c' (a # ys @ zs)"
        "ents c' (a # ys @ zs) = ent0\<lparr>val := v, tm := now'\<rparr> # ents c1 (ys @ zs)"
        "items c' = items c1" "world c' = world c1"
      by auto
    have e1: "entries c1 = ents c1 ys @ ent0 # ents c1 zs"
      using wf_cache_entries [OF s(2)] ent0 by (simp add: xs1 ents_def)
    have e2: "entries c' = ent0\<lparr>val := v, tm := now'\<rparr> # ents c1 ys @ ents c1 zs"
      using wf_cache_entries [OF u(2)] u(3) by (simp add: ents_def)
    show "\<exists>c' ent es1 es2. Update now now' k v c = Some (True, c') \<and>
        entries c1 = es1 @ ent # es2 \<and> key ent = k \<and>
        entries c' = ent\<lparr>val := v, tm := now'\<rparr> # es1 @ es2 \<and>
        items c' = items c1 \<and> world c' = world c1"
      by (intro exI [of _ c'] exI [of _ ent0] exI [of _ "ents c1 ys"] exI [of _ "ents c1 zs"]
          conjI u(1) e1 ent0(2) e2 u(4) u(5))
  qed
  have B: "items c1 k = None \<longrightarrow> Update now now' k v c = Some (False, c1)"
    using Update_absent [OF s(1)] by auto
  show ?thesis
    by (rule exI [of _ c1]) (intro conjI s(1) A B)
qed

text \<open>C7 on the cache with keys 1 and 2: updating key 1, then the absent key 7, at t = 3.\<close>

theorem C7_Update_witness:
  "(\<exists>c1. purgeExpired 3 two_entries = Some c1 \<and>
    (items c1 1 \<noteq> None \<longrightarrow>
      (\<exists>c' ent es1 es2. Update 3 3 1 ''z'' two_entries = Some (True, c') \<and>
        entries c1 = es1 @ ent # es2 \<and> key ent = 1 \<and>
        entries c' = ent\<lparr>val := ''z'', tm := 3\<rparr> # es1 @ es2 \<and>
        items c' = items c1 \<and> world c' = world c1)) \<and>
    (items c1 1 = None \<longrightarrow> Update 3 3 1 ''z'' two_entries = Some (False, c1)))
   \<and> reachable two_entries
   \<and> rets_after [Update_call 3 3 1 ''z'', Update_call 3 3 7 ''y''] two_entries
       = Some [Bool_ret True, Bool_ret False]
   \<and> entries_after [Update_call 3 3 1 ''z'', Update_call 3 3 7 ''y''] two_entries
       = Some [\<lparr>tm = 3, key = 1, val = ''z''\<rparr>, \<lparr>tm = 2, key = 2, val = ''b''\<rparr>]"
proof -
  have r: "reachable two_entries"
    unfolding two_entries_def by (rule reachable_state_after [OF reachable.new])
  have e: "rets_after [Update_call 3 3 1 ''z'', Update_call 3 3 7 ''y''] two_entries
       = Some [Bool_ret True, Bool_ret False]"
    "entries_after [Update_call 3 3 1 ''z'', Update_call 3 3 7 ''y''] two_entries
       = Some [\<lparr>tm = 3, key = 1, val = ''z''\<rparr>, \<lparr>tm = 2, key = 2, val = ''b''\<rparr>]"
    by (simp_all add: two_entries_def run_simps)
  from C7_Update [OF r, of 3 1 3 "''z''"] r e show ?thesis
    by (intro conjI)
qed

text \<open>
  C8. On a reachable cache the sweep returns a cache \<open>c1\<close>. For a key in the map of
  \<open>c1\<close>, \<^verbatim>\<open>Get\<close> returns the value of its entry \<open>ent\<close> and leaves the recency list with \<open>ent\<close>
  taken out and put in front with the clock reading \<^verbatim>\<open>Get\<close> takes for it. \<^verbatim>\<open>Peek\<close>,
  \<^verbatim>\<open>Contains\<close>, \<^verbatim>\<open>Keys\<close> and \<^verbatim>\<open>Len\<close> leave \<open>c1\<close> itself: no timestamp and no position
  changes beyond the sweep. (\<^verbatim>\<open>Keys\<close> lists the keys from the back of the list to the
  front, \<^verbatim>\<open>Len\<close> counts the entries.)
\<close>

theorem C8_Get_refreshes_others_do_not:
  assumes "reachable c"
  shows "\<exists>c1. purgeExpired now c = Some c1 \<and>
    (items c1 k \<noteq> None \<longrightarrow>
      (\<exists>c' ent es1 es2. Get now now' k c = Some ((Some (val ent), True), c') \<and>
        entries c1 = es1 @ ent # es2 \<and> key ent = k \<and>
        entries c' = ent\<lparr>tm := now'\<rparr> # es1 @ es2 \<and>
        items c' = items c1 \<and> world c' = world c1)) \<and>
    (\<exists>r. Peek now k c = Some (r, c1)) \<and>
    Contains now k c = Some (items c1 k \<noteq> None, c1) \<and>
    Keys now c = Some (map (\<lambda>e. Some (key e)) (rev (entries c1)), c1) \<and>
    Len now c = Some (int (length (entries c1)), c1)"
proof -
  from reachable_wf [OF assms] obtain xs where "wf_cache c xs" ..
  from purgeExpired_wf_ex [OF this, of now] obtain c1 xs1 where
    s: "purgeExpired now c = Some c1" "wf_cache c1 xs1"
    by blast
  note en = wf_cache_entries [OF s(2)]
  have A: "items c1 k \<noteq> None \<longrightarrow>
      (\<exists>c' ent es1 es2. Get now now' k c = Some ((Some (val ent), True), c') \<and>
        entries c1 = es1 @ ent # es2 \<and> key ent = k \<and>
        entries c' = ent\<lparr>tm := now'\<rparr> # es1 @ es2 \<and>
        items c' = items c1 \<and> world c' = world c1)"
  proof
    assume "items c1 k \<noteq> None"
    then obtain a where a: "items c1 k = Some a" by auto
    from wf_cache_split [OF s(2) a] obtain ys zs ent0 where
      xs1: "xs1 = ys @ a # zs" and ent0: "entry_at c1 a = Some ent0" "key ent0 = k"
      by blast
    from Get_present [OF s(1) s(2) [unfolded xs1] a, of now'] ent0 obtain c' where
      u: "Get now now' k c = Some ((Some (val ent0), True), c')" "wf_cache c' (a # ys @ zs)"
        "ents c' (a # ys @ zs) = ent0\<lparr>tm := now'\<rparr> # ents c1 (ys @ zs)"
        "items c' = items c1" "world c' = world c1"
      by auto
    have e1: "entries c1 = ents c1 ys @ ent0 # ents c1 zs"
      using en ent0 by (simp add: xs1 ents_def)
    have e2: "entries c' = ent0\<lparr>tm := now'\<rparr> # ents c1 ys @ ents c1 zs"
      using wf_cache_entries [OF u(2)] u(3) by (simp add: ents_def)
    show "\<exists>c' ent es1 es2. Get now now' k c = Some ((Some (val ent), True), c') \<and>
        entries c1 = es1 @ ent # es2 \<and> key ent = k \<and>
        entries c' = ent\<lparr>tm := now'\<rparr> # es1 @ es2 \<and>
        items c' = items c1 \<and> world c' = world c1"
      by (intro exI [of _ c'] exI [of _ ent0] exI [of _ "ents c1 ys"] exI [of _ "ents c1 zs"]
          conjI u(1) e1 ent0(2) e2 u(4) u(5))
  qed
  have B: "\<exists>r. Peek now k c = Some (r, c1)"
  proof (cases "items c1 k")
    case None
    from Peek_absent [OF s(1) None] show ?thesis by (intro exI)
  next
    case (Some a)
    from Peek_present [OF s Some] show ?thesis by auto
  qed
  have C: "Contains now k c = Some (items c1 k \<noteq> None, c1)"
    using s(1) by (simp add: Contains_def)
  have D: "Keys now c = Some (map (\<lambda>e. Some (key e)) (rev (entries c1)), c1)"
    using Keys_wf [OF s] en by simp
  have E: "Len now c = Some (int (length (entries c1)), c1)"
    using s en by (simp add: Len_def Len_list_def wf_cache_def wf_list_def ents_def)
  show ?thesis
    by (rule exI [of _ c1]) (intro conjI s(1) A B C D E)
qed

text \<open>C8 on the cache with keys 1 and 2, at t = 3.\<close>

theorem C8_Get_refreshes_others_do_not_witness:
  "(\<exists>c1. purgeExpired 3 two_entries = Some c1 \<and>
    (items c1 1 \<noteq> None \<longrightarrow>
      (\<exists>c' ent es1 es2. Get 3 3 1 two_entries = Some ((Some (val ent), True), c') \<and>
        entries c1 = es1 @ ent # es2 \<and> key ent = 1 \<and>
        entries c' = ent\<lparr>tm := 3\<rparr> # es1 @ es2 \<and>
        items c' = items c1 \<and> world c' = world c1)) \<and>
    (\<exists>r. Peek 3 1 two_entries = Some (r, c1)) \<and>
    Contains 3 1 two_entries = Some (items c1 1 \<noteq> None, c1) \<and>
    Keys 3 two_entries = Some (map (\<lambda>e. Some (key e)) (rev (entries c1)), c1) \<and>
    Len 3 two_entries = Some (int (length (entries c1)), c1))
   \<and> reachable two_entries
   \<and> rets_after [Peek_call 3 1, Contains_call 3 1, Keys_call 3, Len_call 3, Get_call 3 3 1, Keys_call 3]
        two_entries
       = Some [Val_ret (Some ''a'') True, Bool_ret True, Keys_ret [Some 1, Some 2], Len_ret 2,
               Val_ret (Some ''a'') True, Keys_ret [Some 2, Some 1]]
   \<and> entries_after [Peek_call 3 1, Contains_call 3 1, Keys_call 3, Len_call 3] two_entries
       = Some [\<lparr>tm = 2, key = 2, val = ''b''\<rparr>, \<lparr>tm = 0, key = 1, val = ''a''\<rparr>]
   \<and> entries_after [Get_call 3 3 1] two_entries
       = Some [\<lparr>tm = 3, key = 1, val = ''a''\<rparr>, \<lparr>tm = 2, key = 2, val = ''b''\<rparr>]"
proof -
  have r: "reachable two_entries"
    unfolding two_entries_def by (rule reachable_state_after [OF reachable.new])
  have e: "rets_after [Peek_call 3 1, Contains_call 3 1, Keys_call 3, Len_call 3, Get_call 3 3 1, Keys_call 3]
        two_entries
       = Some [Val_ret (Some ''a'') True, Bool_ret True, Keys_ret [Some 1, Some 2], Len_ret 2,
               Val_ret (Some ''a'') True, Keys_ret [Some 2, Some 1]]"
    "entries_after [Peek_call 3 1, Contains_call 3 1, Keys_call 3, Len_call 3] two_entries
       = Some [\<lparr>tm = 2, key = 2, val = ''b''\<rparr>, \<lparr>tm = 0, key = 1, val = ''a''\<rparr>]"
    "entries_after [Get_call 3 3 1] two_entries
       = Some [\<lparr>tm = 3, key = 1, val = ''a''\<rparr>, \<lparr>tm = 2, key = 2, val = ''b''\<rparr>]"
    by (simp_all add: two_entries_def run_simps)
  from C8_Get_refreshes_others_do_not [OF r, of 3 1 3] r e show ?thesis
    by (intro conjI)
qed




text \<open>
  C10. On a reachable cache made with a nil callback, \<^verbatim>\<open>Remove\<close>, \<^verbatim>\<open>Purge\<close> (in any order
  \<^verbatim>\<open>range\<close> can take), the sweep, and \<^verbatim>\<open>removeElement\<close> on any element of the list return
  without a panic and leave the caller's world as it was: nothing was called.
\<close>

theorem C10_nil_callback_never_called:
  assumes "reachable c" "onEvictCall c = None"
  shows "(\<exists>r c'. Remove now k c = Some (r, c') \<and> world c' = world c) \<and>
    (range_order ks c \<longrightarrow> (\<exists>c'. Purge ks c = Some c' \<and> world c' = world c)) \<and>
    (\<exists>c'. purgeExpired now c = Some c' \<and> world c' = world c) \<and>
    (\<forall>a\<in>set (elements c). \<exists>c'. removeElement a c = Some c' \<and> world c' = world c)"
proof -
  from reachable_wf [OF assms(1)] obtain xs where wf: "wf_cache c xs" ..
  from purgeExpired_wf_ex [OF wf, of now] assms(2) obtain c1 xs1 where
    s: "purgeExpired now c = Some c1" "wf_cache c1 xs1" "world c1 = world c"
      "onEvictCall c1 = None"
    by auto
  have 1: "\<exists>r c'. Remove now k c = Some (r, c') \<and> world c' = world c"
  proof (cases "items c1 k")
    case None
    from Remove_absent [OF s(1) None] s(3) show ?thesis by blast
  next
    case (Some a)
    from wf_cache_split [OF s(2) Some] obtain ys zs where xs1: "xs1 = ys @ a # zs"
      by blast
    from Remove_present [OF s(1) s(2) [unfolded xs1] Some] s(3,4) show ?thesis
      by auto
  qed
  have 2: "\<exists>c'. Purge ks c = Some c' \<and> world c' = world c" if "range_order ks c"
    using Purge_wf [OF wf that] assms(2) by auto
  have 3: "\<exists>c'. removeElement a c = Some c' \<and> world c' = world c" if "a \<in> set (elements c)" for a
  proof -
    from wf have "elements c = xs"
      by (simp add: wf_cache_def wf_list_elements)
    with that obtain ys zs where "xs = ys @ a # zs"
      by (auto simp: in_set_conv_decomp)
    from removeElement_wf [OF wf [unfolded this]] assms(2) show ?thesis
      by auto
  qed
  have 4: "\<exists>c'. purgeExpired now c = Some c' \<and> world c' = world c"
    using s(1,3) by (intro exI [of _ c1] conjI)
  from 1 2 3 4 show ?thesis by (intro conjI impI ballI)
qed

text \<open>C10 on the cache with keys 1 and 2 and no callback.\<close>

theorem C10_nil_callback_never_called_witness:
  "reachable two_entries_nil \<and> onEvictCall two_entries_nil = None
   \<and> elements two_entries_nil = [2, 1] \<and> range_order [2, 1] two_entries_nil
   \<and> (\<exists>r c'. Remove 10 1 two_entries_nil = Some (r, c') \<and> world c' = world two_entries_nil)
   \<and> (\<exists>c'. Purge [2, 1] two_entries_nil = Some c' \<and> world c' = world two_entries_nil)
   \<and> (\<exists>c'. purgeExpired 10 two_entries_nil = Some c' \<and> world c' = world two_entries_nil)
   \<and> (\<exists>c'. removeElement 2 two_entries_nil = Some c' \<and> world c' = world two_entries_nil)
   \<and> entries_after [Remove_call 3 1, PurgeExpired_call 10, Purge_call []] two_entries_nil = Some []"
proof -
  have r: "reachable two_entries_nil"
    unfolding two_entries_nil_def by (rule reachable_state_after [OF reachable.new])
  have e: "onEvictCall two_entries_nil = None" "elements two_entries_nil = [2, 1]"
    "range_order [2, 1] two_entries_nil"
    "entries_after [Remove_call 3 1, PurgeExpired_call 10, Purge_call []] two_entries_nil = Some []"
    by (simp_all add: two_entries_nil_def run_simps insert_commute)
  from C10_nil_callback_never_called [OF r e(1), where now = 10 and k = 1 and ks = "[2, 1]"] r e
  show ?thesis
    by simp
qed

end
